theory Spec2Isabelle
  imports Main "HOL-Library.AList"
begin

section \<open>Values\<close>

text \<open>
  Python values as they occur in a decoded JSON document. A number is an \<open>int\<close> or, for a
  literal with a fraction or an exponent, a \<open>Decimal\<close> (digits and exponent). A \<open>dict\<close> is an
  association list in insertion order; its keys are pairwise distinct in every dict that
  Python builds.
\<close>

datatype number = Integer int | Decimal int int

datatype json =
    JNull
  | JBool bool
  | JNum number
  | JStr string
  | JArr "json list"
  | JObj "(string \<times> json) list"

text \<open>\<open>d[k] = v\<close> on a dict: an existing key keeps its place, a new key goes last.\<close>

definition dict_set :: "string \<Rightarrow> json \<Rightarrow> json \<Rightarrow> json" where
  "dict_set k v d = (case d of JObj kvs \<Rightarrow> JObj (AList.update k v kvs) | _ \<Rightarrow> d)"

text \<open>\<open>xs.append(v)\<close> on a list.\<close>

definition list_append :: "json \<Rightarrow> json \<Rightarrow> json" where
  "list_append v a = (case a of JArr xs \<Rightarrow> JArr (xs @ [v]) | _ \<Rightarrow> a)"

section \<open>The event stream of \<open>ijson.parse\<close>\<close>

text \<open>
  An event of the stream is the triple \<open>(prefix, event, value)\<close>; the event name and its
  value are one constructor here: \<open>map_key\<close> carries the key, \<open>scalar\<close> stands for the
  events \<open>null\<close>, \<open>boolean\<close>, \<open>number\<close> and \<open>string\<close> with their value, the four
  structural events carry \<open>None\<close>.
\<close>

datatype event = start_map | end_map | start_array | end_array | map_key string | scalar json

type_synonym parse_event = "string \<times> event"

text \<open>\<open>'.'.join(path)\<close>\<close>

fun dotted :: "string list \<Rightarrow> string" where
  "dotted [] = []"
| "dotted [x] = x"
| "dotted (x # y # ys) = x @ CHR ''.'' # dotted (y # ys)"

text \<open>
  Modelled from the spec: the tokenizer (\<open>ijson.parse\<close>) is a library that is not part of
  the sources. Its contract: the events of a document come in document order, each with the
  dotted path of its position; the elements of an array are at \<open>item\<close>, the value of a key
  at that key, and a \<open>map_key\<close> event carries the prefix of the object it belongs to.
\<close>

fun events_at :: "string list \<Rightarrow> json \<Rightarrow> parse_event list" where
  "events_at p (JObj kvs) =
     (dotted p, start_map)
       # concat (map (\<lambda>kv. (dotted p, map_key (fst kv)) # events_at (p @ [fst kv]) (snd kv)) kvs)
       @ [(dotted p, end_map)]"
| "events_at p (JArr xs) =
     (dotted p, start_array)
       # concat (map (events_at (p @ [''item''])) xs)
       @ [(dotted p, end_array)]"
| "events_at p v = [(dotted p, scalar v)]"

definition ijson_parse :: "json \<Rightarrow> parse_event list" where
  "ijson_parse doc = events_at [] doc"

section \<open>Exceptions\<close>

datatype exn =
    ResponseError json
  | NoResults
  | MultipleResults
  | MissingResult
  | InvalidUsage
  | HTTPError nat
  | StopIteration
  | IndexError
  | AttributeError
  | UnboundLocalError

section \<open>\<open>ijson.common.ObjectBuilder\<close>\<close>

text \<open>
  Modelled from the spec: the builder is a library class that is not part of the sources.
  It keeps a stack \<open>containers\<close> of setter closures, the last key seen and the value built
  so far. A closure refers to a dict or list that already hangs in the value; the reference
  is written here as the way down from the root of the value to that container: under a
  key of a dict, or at the last element of a list. A setter only ever refers to a
  container that the builder itself created, which is why \<open>dict_set\<close>, \<open>list_append\<close> and
  \<open>modify\<close> leave every other shape alone.
\<close>

datatype step = Key string | Last

datatype setter = initial_set | mapping_set "step list" | array_append "step list"

fun modify :: "step list \<Rightarrow> (json \<Rightarrow> json) \<Rightarrow> json \<Rightarrow> json" where
  "modify [] f v = f v"
| "modify (Key k # w) f (JObj kvs) =
     JObj (AList.map_entry k (modify w f) kvs)"
| "modify (Last # w) f (JArr xs) =
     (if xs = [] then JArr xs else JArr (butlast xs @ [modify w f (last xs)]))"
| "modify (s # w) f v = v"

text \<open>
  The attribute \<open>value\<close> is \<open>builder_value\<close> here; it does not exist (\<open>None\<close>) until
  a setter has written it, and so does \<open>key\<close> until a \<open>map_key\<close> event.
\<close>

record ObjectBuilder =
  containers :: "setter list"
  key :: "string option"
  builder_value :: "json option"

definition ObjectBuilder_init :: ObjectBuilder where
  "ObjectBuilder_init = \<lparr>containers = [initial_set], key = None, builder_value = None\<rparr>"

text \<open>Calling the closure \<open>containers[-1]\<close> with a value.\<close>

fun call_setter :: "setter \<Rightarrow> json \<Rightarrow> ObjectBuilder \<Rightarrow> exn + ObjectBuilder" where
  "call_setter initial_set v b = Inr (b\<lparr>builder_value := Some v\<rparr>)"
| "call_setter (mapping_set w) v b =
     (case key b of
        None \<Rightarrow> Inl AttributeError
      | Some k \<Rightarrow> Inr (b\<lparr>builder_value := map_option (modify w (dict_set k v)) (builder_value b)\<rparr>))"
| "call_setter (array_append w) v b =
     Inr (b\<lparr>builder_value := map_option (modify w (list_append v)) (builder_value b)\<rparr>)"

text \<open>Where the object that was just handed to a setter now hangs.\<close>

fun stored_at :: "setter \<Rightarrow> ObjectBuilder \<Rightarrow> step list" where
  "stored_at initial_set b = []"
| "stored_at (mapping_set w) b = w @ (case key b of Some k \<Rightarrow> [Key k] | None \<Rightarrow> [])"
| "stored_at (array_append w) b = w @ [Last]"

fun builder_event :: "event \<Rightarrow> ObjectBuilder \<Rightarrow> exn + ObjectBuilder" where
  "builder_event (map_key k) b = Inr (b\<lparr>key := Some k\<rparr>)"
| "builder_event start_map b =
     (if containers b = [] then Inl IndexError
      else (case call_setter (last (containers b)) (JObj []) b of
              Inl e \<Rightarrow> Inl e
            | Inr b' \<Rightarrow> Inr (b'\<lparr>containers :=
                          containers b' @ [mapping_set (stored_at (last (containers b)) b)]\<rparr>)))"
| "builder_event start_array b =
     (if containers b = [] then Inl IndexError
      else (case call_setter (last (containers b)) (JArr []) b of
              Inl e \<Rightarrow> Inl e
            | Inr b' \<Rightarrow> Inr (b'\<lparr>containers :=
                          containers b' @ [array_append (stored_at (last (containers b)) b)]\<rparr>)))"
| "builder_event end_array b =
     (if containers b = [] then Inl IndexError else Inr (b\<lparr>containers := butlast (containers b)\<rparr>))"
| "builder_event end_map b =
     (if containers b = [] then Inl IndexError else Inr (b\<lparr>containers := butlast (containers b)\<rparr>))"
| "builder_event (scalar v) b =
     (if containers b = [] then Inl IndexError else call_setter (last (containers b)) v b)"

section \<open>\<open>pysnow.response.Response\<close>\<close>

text \<open>
  The wrapped \<open>requests.Response\<close>: its status code, the method of its request, and the
  events that the tokenizer delivers from its raw body.
\<close>

record http_response =
  status_code :: nat
  request_method :: string
  raw :: "parse_event list"

record Response =
  raise_on_empty :: bool
  response :: http_response
  chunk_size :: nat
  count :: int

definition Response_init :: "http_response \<Rightarrow> bool \<Rightarrow> nat \<Rightarrow> Response" where
  "Response_init resp roe chunk =
     \<lparr>raise_on_empty = roe, response = resp, chunk_size = chunk, count = 0\<rparr>"

subsection \<open>The generator \<open>_parse_response\<close>\<close>

text \<open>The local variables of the generator.\<close>

record locals =
  has_result_single :: bool
  has_result_many :: bool
  has_error :: bool
  builder :: "ObjectBuilder option"

definition locals_init :: locals where
  "locals_init = \<lparr>has_result_single = False, has_result_many = False, has_error = False,
                   builder = None\<rparr>"

text \<open>
  Where the generator is suspended: in the loop (with the events still to come), after the
  \<open>yield {}\<close> of an empty result, or finished.
\<close>

datatype frame = In_loop "parse_event list" locals | After_empty locals | Closed

datatype body_result =
    Continue locals Response
  | Yielded json locals Response
  | Raised exn Response

definition startswith :: "string \<Rightarrow> string \<Rightarrow> bool" where
  "startswith s t = (take (length t) s = t)"

text \<open>The first \<open>if\<close> of the loop body: a root key \<open>error\<close> or \<open>result\<close> opens.\<close>

definition match_root :: "parse_event \<Rightarrow> locals \<Rightarrow> locals" where
  "match_root pe l =
     (if pe = (''error'', start_map) then
        l\<lparr>has_error := True, builder := Some ObjectBuilder_init\<rparr>
      else if fst pe = ''result'' \<and> snd pe \<in> {start_map, start_array} then
        (if snd pe = start_map then
           l\<lparr>builder := Some ObjectBuilder_init, has_result_single := True\<rparr>
         else if snd pe = start_array then
           l\<lparr>builder := Some ObjectBuilder_init, has_result_many := True\<rparr>
         else l\<lparr>builder := Some ObjectBuilder_init\<rparr>)
      else l)"

text \<open>\<open>builder.event(event, value)\<close>\<close>

definition feed :: "event \<Rightarrow> locals \<Rightarrow> Response \<Rightarrow> body_result" where
  "feed ev l r =
     (case builder l of
        None \<Rightarrow> Raised UnboundLocalError r
      | Some b \<Rightarrow>
          (case builder_event ev b of
             Inl e \<Rightarrow> Raised e r
           | Inr b' \<Rightarrow> Continue (l\<lparr>builder := Some b'\<rparr>) r))"

text \<open>\<open>builder.event(event, value); self.count += 1; yield getattr(builder, 'value')\<close>\<close>

definition feed_and_yield :: "event \<Rightarrow> locals \<Rightarrow> Response \<Rightarrow> body_result" where
  "feed_and_yield ev l r =
     (case builder l of
        None \<Rightarrow> Raised UnboundLocalError r
      | Some b \<Rightarrow>
          (case builder_event ev b of
             Inl e \<Rightarrow> Raised e r
           | Inr b' \<Rightarrow>
               (case builder_value b' of
                  None \<Rightarrow> Raised AttributeError (r\<lparr>count := count r + 1\<rparr>)
                | Some v \<Rightarrow> Yielded v (l\<lparr>builder := Some b'\<rparr>) (r\<lparr>count := count r + 1\<rparr>))))"

text \<open>The second \<open>if\<close> of the loop body.\<close>

definition dispatch :: "parse_event \<Rightarrow> locals \<Rightarrow> Response \<Rightarrow> body_result" where
  "dispatch pe l r =
     (if has_result_many l then
        (if pe = (''result.item'', end_map) then feed_and_yield (snd pe) l r
         else if startswith (fst pe) ''result.item'' then feed (snd pe) l r
         else Continue l r)
      else if has_result_single l then
        (if pe = (''result'', end_map) then feed_and_yield (snd pe) l r
         else if startswith (fst pe) ''result'' then feed (snd pe) l r
         else Continue l r)
      else if has_error l then
        (if pe = (''error'', end_map) then
           (case builder l of
              None \<Rightarrow> Raised UnboundLocalError r
            | Some b \<Rightarrow>
                (case builder_value b of
                   None \<Rightarrow> Raised AttributeError r
                 | Some v \<Rightarrow> Raised (ResponseError v) r))
         else if startswith (fst pe) ''error'' then feed (snd pe) l r
         else Continue l r)
      else Continue l r)"

definition loop_body :: "parse_event \<Rightarrow> locals \<Rightarrow> Response \<Rightarrow> body_result" where
  "loop_body pe l r = dispatch pe (match_root pe l) r"

text \<open>The statements after the loop, from the last \<open>if\<close> on and from the first.\<close>

definition missing_check :: "locals \<Rightarrow> Response \<Rightarrow> (exn + json) \<times> frame \<times> Response" where
  "missing_check l r =
     (if \<not> (has_result_single l \<or> has_result_many l \<or> has_error l)
      then (Inl MissingResult, Closed, r)
      else (Inl StopIteration, Closed, r))"

definition after_loop :: "locals \<Rightarrow> Response \<Rightarrow> (exn + json) \<times> frame \<times> Response" where
  "after_loop l r =
     (if (has_result_single l \<or> has_result_many l) \<and> count r = 0 then
        (if raise_on_empty r then (Inl NoResults, Closed, r)
         else (Inr (JObj []), After_empty l, r))
      else missing_check l r)"

fun for_loop :: "parse_event list \<Rightarrow> locals \<Rightarrow> Response \<Rightarrow> (exn + json) \<times> frame \<times> Response" where
  "for_loop [] l r = after_loop l r"
| "for_loop (pe # pes) l r =
     (case loop_body pe l r of
        Continue l' r' \<Rightarrow> for_loop pes l' r'
      | Yielded v l' r' \<Rightarrow> (Inr v, In_loop pes l', r')
      | Raised e r' \<Rightarrow> (Inl e, Closed, r'))"

text \<open>Calling \<open>_parse_response()\<close> makes the generator; \<open>next\<close> resumes it.\<close>

definition parse_response :: "Response \<Rightarrow> frame" where
  "parse_response r = In_loop (raw (response r)) locals_init"

fun parse_next :: "frame \<Rightarrow> Response \<Rightarrow> (exn + json) \<times> frame \<times> Response" where
  "parse_next (In_loop pes l) r = for_loop pes l r"
| "parse_next (After_empty l) r = missing_check l r"
| "parse_next Closed r = (Inl StopIteration, Closed, r)"

subsection \<open>The generator \<open>_get_validated_response\<close>\<close>

text \<open>What the gate yields: a list, or the generator of \<open>_parse_response\<close>.\<close>

datatype iterable = Listed "json list" | Generator frame

fun iter_next :: "iterable \<Rightarrow> Response \<Rightarrow> (exn + json) \<times> iterable \<times> Response" where
  "iter_next (Listed []) r = (Inl StopIteration, Listed [], r)"
| "iter_next (Listed (x # xs)) r = (Inr x, Listed xs, r)"
| "iter_next (Generator f) r =
     (case parse_next f r of (res, f', r') \<Rightarrow> (res, Generator f', r'))"

text \<open>
  \<open>requests.Response.raise_for_status\<close> raises \<open>HTTPError\<close> for a status code from 400 to
  599 and returns otherwise.
\<close>

definition raise_for_status :: "http_response \<Rightarrow> exn option" where
  "raise_for_status resp =
     (if 400 \<le> status_code resp \<and> status_code resp < 600
      then Some (HTTPError (status_code resp)) else None)"

text \<open>
  Where the gate is suspended: not started, after \<open>yield [{'status': 'record deleted'}]\<close>,
  after \<open>yield [{}]\<close>, after \<open>yield self._parse_response()\<close>, or finished.
\<close>

datatype gate = Gate_start | Gate_deleted | Gate_not_found | Gate_parsed | Gate_closed

fun gate_next :: "gate \<Rightarrow> Response \<Rightarrow> (exn + iterable) \<times> gate" where
  "gate_next Gate_start r =
     (if request_method (response r) = ''DELETE'' \<and> status_code (response r) = 204 then
        (Inr (Listed [JObj [(''status'', JStr ''record deleted'')]]), Gate_deleted)
      else
        (case raise_for_status (response r) of
           Some e \<Rightarrow>
             (if status_code (response r) = 404 then
                (if raise_on_empty r then (Inl NoResults, Gate_closed)
                 else (Inr (Listed [JObj []]), Gate_not_found))
              else (Inl e, Gate_closed))
         | None \<Rightarrow> (Inr (Generator (parse_response r)), Gate_parsed)))"
| "gate_next Gate_not_found r = (Inr (Generator (parse_response r)), Gate_parsed)"
| "gate_next Gate_deleted r = (Inl StopIteration, Gate_closed)"
| "gate_next Gate_parsed r = (Inl StopIteration, Gate_closed)"
| "gate_next Gate_closed r = (Inl StopIteration, Gate_closed)"

subsection \<open>\<open>itertools.chain.from_iterable\<close> and the accessors\<close>

text \<open>The chain holds the gate and the iterable it is currently drawing from.\<close>

datatype chain = Chain gate "iterable option"

fun gate_rank :: "gate \<Rightarrow> nat" where
  "gate_rank Gate_start = 3"
| "gate_rank Gate_not_found = 2"
| "gate_rank Gate_deleted = 1"
| "gate_rank Gate_parsed = 1"
| "gate_rank Gate_closed = 0"

function chain_next :: "chain \<Rightarrow> Response \<Rightarrow> (exn + json) \<times> chain \<times> Response" where
  "chain_next (Chain g (Some it)) r =
     (case iter_next it r of
        (Inr v, it', r') \<Rightarrow> (Inr v, Chain g (Some it'), r')
      | (Inl e, it', r') \<Rightarrow>
          (if e = StopIteration then chain_next (Chain g None) r'
           else (Inl e, Chain g (Some it'), r')))"
| "chain_next (Chain g None) r =
     (case gate_next g r of
        (Inr it, g') \<Rightarrow> chain_next (Chain g' (Some it)) r
      | (Inl e, g') \<Rightarrow> (Inl e, Chain g' None, r))"
  by pat_completeness auto
termination
proof (relation "measure (\<lambda>(c, r). case c of Chain g cur \<Rightarrow>
                   2 * gate_rank g + (case cur of None \<Rightarrow> 0 | Some it \<Rightarrow> 1))", goal_cases)
  case 1
  show ?case by simp
next
  case (2 g it r x y z e)
  show ?case by simp
next
  case (3 g r x g' it)
  from 3 have "gate_next g r = (Inr it, g')" by simp
  then have "gate_rank g' < gate_rank g"
    by (cases g) (auto split: if_splits option.splits)
  then show ?case by simp
qed

text \<open>
  \<open>all()\<close>: the chain over the gate, not yet started. Nothing is read before the first
  \<open>next\<close>.
\<close>

definition all_records :: "Response \<Rightarrow> chain" where
  "all_records r = Chain Gate_start None"

text \<open>
  \<open>first()\<close>, \<open>first_or_none()\<close>, \<open>one()\<close> and \<open>one_or_none()\<close>: the result, or the
  exception raised, and the \<open>Response\<close> as it is left.
\<close>

definition first :: "Response \<Rightarrow> (exn + json) \<times> Response" where
  "first r =
     (let r1 = r\<lparr>raise_on_empty := True\<rparr> in
      case chain_next (all_records r1) r1 of (res, c, r2) \<Rightarrow> (res, r2))"

definition first_or_none :: "Response \<Rightarrow> (exn + json option) \<times> Response" where
  "first_or_none r =
     (case first r of
        (Inr v, r') \<Rightarrow> (Inr (Some v), r')
      | (Inl e, r') \<Rightarrow> (if e = NoResults then (Inr None, r') else (Inl e, r')))"

definition one :: "Response \<Rightarrow> (exn + json) \<times> Response" where
  "one r =
     (let r1 = r\<lparr>raise_on_empty := True\<rparr> in
      case chain_next (all_records r1) r1 of
        (Inl e, c, r2) \<Rightarrow> (Inl e, r2)
      | (Inr result, c, r2) \<Rightarrow>
          (case chain_next c r2 of
             (Inl e, c', r3) \<Rightarrow> (if e = StopIteration then (Inr result, r3) else (Inl e, r3))
           | (Inr v, c', r3) \<Rightarrow> (Inl MultipleResults, r3)))"

definition one_or_none :: "Response \<Rightarrow> (exn + json option) \<times> Response" where
  "one_or_none r =
     (case one r of
        (Inr v, r') \<Rightarrow> (Inr (Some v), r')
      | (Inl e, r') \<Rightarrow> (if e = NoResults then (Inr None, r') else (Inl e, r')))"

text \<open>
  A consumer that asks an iterator for up to \<open>n\<close> records: the records it got, the
  exception that ended the iteration if one did (\<open>StopIteration\<close> when the iterator was
  exhausted), and the iterator and the \<open>Response\<close> as they are left.
\<close>

fun pull :: "nat \<Rightarrow> chain \<Rightarrow> Response \<Rightarrow> json list \<times> exn option \<times> chain \<times> Response" where
  "pull 0 c r = ([], None, c, r)"
| "pull (Suc n) c r =
     (case chain_next c r of
        (Inl e, c', r') \<Rightarrow> ([], Some e, c', r')
      | (Inr v, c', r') \<Rightarrow>
          (case pull n c' r' of (vs, e, c'', r'') \<Rightarrow> (v # vs, e, c'', r'')))"

fun parse_pull :: "nat \<Rightarrow> frame \<Rightarrow> Response \<Rightarrow> json list \<times> exn option \<times> frame \<times> Response" where
  "parse_pull 0 f r = ([], None, f, r)"
| "parse_pull (Suc n) f r =
     (case parse_next f r of
        (Inl e, f', r') \<Rightarrow> ([], Some e, f', r')
      | (Inr v, f', r') \<Rightarrow>
          (case parse_pull n f' r' of (vs, e, f'', r'') \<Rightarrow> (v # vs, e, f'', r'')))"

section \<open>\<open>pysnow.oauth_client.OAuthClient.set_token\<close>\<close>

text \<open>
  The argument of \<open>set_token\<close> is any Python object: \<open>None\<close>, a bool, an int, a string, a
  list, a dict (with keys of any kind) or some other object, which is truthy.
\<close>

datatype py =
    PyNone
  | PyBool bool
  | PyInt int
  | PyStr string
  | PyList "py list"
  | PyDict "(py \<times> py) list"
  | PyObject nat

fun truthy :: "py \<Rightarrow> bool" where
  "truthy PyNone = False"
| "truthy (PyBool b) = b"
| "truthy (PyInt i) = (i \<noteq> 0)"
| "truthy (PyStr s) = (s \<noteq> [])"
| "truthy (PyList xs) = (xs \<noteq> [])"
| "truthy (PyDict kvs) = (kvs \<noteq> [])"
| "truthy (PyObject a) = True"

fun isinstance_dict :: "py \<Rightarrow> bool" where
  "isinstance_dict (PyDict kvs) = True"
| "isinstance_dict v = False"

text \<open>\<open>set(token)\<close> for a dict: its keys.\<close>

fun key_set :: "py \<Rightarrow> py set" where
  "key_set (PyDict kvs) = set (map fst kvs)"
| "key_set v = {}"

definition expected_keys :: "py set" where
  "expected_keys = set (map PyStr [''token_type'', ''refresh_token'', ''access_token'',
                                    ''scope'', ''expires_in'', ''expires_at''])"

record OAuthClient =
  client_id :: string
  client_secret :: string
  token :: py

text \<open>The result is the exception raised, if any, and the client as it is left.\<close>

definition set_token :: "py \<Rightarrow> OAuthClient \<Rightarrow> exn option \<times> OAuthClient" where
  "set_token tok c =
     (if \<not> truthy tok then (None, c\<lparr>token := PyNone\<rparr>)
      else if \<not> isinstance_dict tok \<or> \<not> expected_keys \<subseteq> key_set tok then (Some InvalidUsage, c)
      else (None, c\<lparr>token := tok\<rparr>))"

section \<open>Documents\<close>

text \<open>
  The Python object that a JSON value denotes: a key that occurs again in an object
  overwrites the earlier value. A value whose objects all have pairwise distinct keys
  denotes itself.
\<close>

fun json_loads :: "json \<Rightarrow> json" where
  "json_loads (JObj kvs) =
     JObj (fold (\<lambda>kv acc. AList.update (fst kv) (json_loads (snd kv)) acc) kvs [])"
| "json_loads (JArr xs) = JArr (map json_loads xs)"
| "json_loads v = v"

fun unique_keys :: "json \<Rightarrow> bool" where
  "unique_keys (JObj kvs) = (distinct (map fst kvs) \<and> list_all (\<lambda>kv. unique_keys (snd kv)) kvs)"
| "unique_keys (JArr xs) = list_all unique_keys xs"
| "unique_keys v = True"

fun is_object :: "json \<Rightarrow> bool" where
  "is_object (JObj kvs) = True"
| "is_object v = False"

fun is_array :: "json \<Rightarrow> bool" where
  "is_array (JArr xs) = True"
| "is_array v = False"

text \<open>
  The root of a document matches when it is an object with a key \<open>result\<close> whose value is
  an object or an array, or a key \<open>error\<close> whose value is an object.
\<close>

fun root_matches :: "json \<Rightarrow> bool" where
  "root_matches (JObj kvs) =
     list_ex (\<lambda>kv. (fst kv = ''result'' \<and> (is_object (snd kv) \<or> is_array (snd kv)))
                  \<or> (fst kv = ''error'' \<and> is_object (snd kv))) kvs"
| "root_matches v = False"

text \<open>A response whose status passes the gate, so that its body is parsed.\<close>

definition passes_gate :: "http_response \<Rightarrow> bool" where
  "passes_gate resp =
     (raise_for_status resp = None
      \<and> \<not> (request_method resp = ''DELETE'' \<and> status_code resp = 204))"

section \<open>Notions used in the proofs\<close>

text \<open>An event that does not open a root \<open>error\<close> or \<open>result\<close>.\<close>

definition quiet :: "parse_event \<Rightarrow> bool" where
  "quiet pe = (pe \<noteq> (''error'', start_map)
               \<and> \<not> (fst pe = ''result'' \<and> snd pe \<in> {start_map, start_array}))"

text \<open>
  An event that the loop body hands to the builder and does nothing else with, given the
  flags of the generator.
\<close>

definition fed :: "locals \<Rightarrow> parse_event \<Rightarrow> bool" where
  "fed l pe =
     (quiet pe \<and>
      (if has_result_many l then
         pe \<noteq> (''result.item'', end_map) \<and> startswith (fst pe) ''result.item''
       else if has_result_single l then
         pe \<noteq> (''result'', end_map) \<and> startswith (fst pe) ''result''
       else has_error l \<and> pe \<noteq> (''error'', end_map) \<and> startswith (fst pe) ''error''))"

text \<open>Feeding a run of events to a builder, stopping at the first exception.\<close>

fun feed_all :: "event list \<Rightarrow> ObjectBuilder \<Rightarrow> exn + ObjectBuilder" where
  "feed_all [] b = Inr b"
| "feed_all (ev # evs) b =
     (case builder_event ev b of Inl e \<Rightarrow> Inl e | Inr b' \<Rightarrow> feed_all evs b')"

text \<open>The key that the builder holds after the events of a value, given the key before.\<close>

fun last_key :: "json \<Rightarrow> string option \<Rightarrow> string option" where
  "last_key (JObj kvs) k0 = fold (\<lambda>kv k. last_key (snd kv) (Some (fst kv))) kvs k0"
| "last_key (JArr xs) k0 = fold last_key xs k0"
| "last_key v k0 = k0"

text \<open>The value of the builder after a setter was called with \<open>v\<close>, given the key then.\<close>

fun put :: "setter \<Rightarrow> string option \<Rightarrow> json \<Rightarrow> json option \<Rightarrow> json option" where
  "put initial_set k v val = Some v"
| "put (mapping_set w) k v val =
     (case k of None \<Rightarrow> val | Some k' \<Rightarrow> map_option (modify w (dict_set k' v)) val)"
| "put (array_append w) k v val = map_option (modify w (list_append v)) val"

text \<open>A builder whose innermost setter can be called: a dict setter needs a key.\<close>

definition settable :: "ObjectBuilder \<Rightarrow> bool" where
  "settable b = (containers b \<noteq> []
                 \<and> (\<forall>w. last (containers b) = mapping_set w \<longrightarrow> key b \<noteq> None))"

text \<open>The builder after all the events of a value \<open>v\<close> were fed to it.\<close>

definition built :: "json \<Rightarrow> ObjectBuilder \<Rightarrow> ObjectBuilder" where
  "built v b = b\<lparr>builder_value := put (last (containers b)) (key b) (json_loads v) (builder_value b),
                 key := last_key v (key b)\<rparr>"

section \<open>What the accessors leave of the \<open>Response\<close>\<close>

text \<open>
  Iterating changes \<open>count\<close> only: the flag and the wrapped response stay as they are.
\<close>

lemma loop_body_keeps:
  "loop_body pe l r = Continue l' r' \<Longrightarrow> r' = r"
  "loop_body pe l r = Raised e r' \<Longrightarrow> raise_on_empty r' = raise_on_empty r \<and> response r' = response r"
  "loop_body pe l r = Yielded v l' r' \<Longrightarrow> r' = r\<lparr>count := count r + 1\<rparr>"
  by (auto simp: loop_body_def dispatch_def feed_def feed_and_yield_def
           split: if_splits option.splits sum.splits)

lemma for_loop_keeps:
  "for_loop pes l r = (res, f, r') \<Longrightarrow>
     raise_on_empty r' = raise_on_empty r \<and> response r' = response r"
proof (induction pes arbitrary: l r)
  case Nil
  then show ?case
    by (auto simp: after_loop_def missing_check_def split: if_splits)
next
  case (Cons pe pes)
  show ?case
  proof (cases "loop_body pe l r")
    case (Continue l1 r1)
    with Cons.prems have "for_loop pes l1 r1 = (res, f, r')" by simp
    from Cons.IH[OF this] loop_body_keeps(1)[OF Continue] show ?thesis by simp
  next
    case (Yielded v l1 r1)
    with Cons.prems loop_body_keeps(3)[OF Yielded] show ?thesis by auto
  next
    case (Raised e r1)
    with Cons.prems loop_body_keeps(2)[OF Raised] show ?thesis by auto
  qed
qed

lemma parse_next_keeps:
  "parse_next f r = (res, f', r') \<Longrightarrow>
     raise_on_empty r' = raise_on_empty r \<and> response r' = response r"
  by (cases f) (auto dest: for_loop_keeps simp: missing_check_def split: if_splits)

lemma iter_next_keeps:
  "iter_next it r = (res, it', r') \<Longrightarrow>
     raise_on_empty r' = raise_on_empty r \<and> response r' = response r"
  by (cases "(it, r)" rule: iter_next.cases) (auto dest: parse_next_keeps split: prod.splits)

lemma chain_next_keeps:
  "chain_next c r = (res, c', r') \<Longrightarrow>
     raise_on_empty r' = raise_on_empty r \<and> response r' = response r"
proof (induction c r arbitrary: res c' r' rule: chain_next.induct)
  case (1 g it r)
  obtain x it1 r1 where it: "iter_next it r = (x, it1, r1)" by (cases "iter_next it r") auto
  note k = iter_next_keeps[OF it]
  show ?case
  proof (cases x)
    case (Inr v)
    with 1 it k show ?thesis by auto
  next
    case (Inl e)
    show ?thesis
    proof (cases "e = StopIteration")
      case True
      with 1(2) it Inl have "chain_next (Chain g None) r1 = (res, c', r')" by simp
      from 1(1)[OF it[symmetric] Inl refl True this] k Inl True show ?thesis by auto
    next
      case False
      with 1(2) it Inl k show ?thesis by auto
    qed
  qed
next
  case (2 g r)
  obtain x g1 where gn: "gate_next g r = (x, g1)" by (cases "gate_next g r") auto
  show ?case
  proof (cases x)
    case (Inl e)
    with 2 gn show ?thesis by auto
  next
    case (Inr it)
    with 2(2) gn have "chain_next (Chain g1 (Some it)) r = (res, c', r')" by simp
    from 2(1)[OF gn[symmetric] Inr this] show ?thesis .
  qed
qed

lemma pull_keeps:
  "pull n c r = (vs, e, c', r') \<Longrightarrow>
     raise_on_empty r' = raise_on_empty r \<and> response r' = response r"
proof (induction n arbitrary: c r vs e c' r')
  case 0
  then show ?case by simp
next
  case (Suc n)
  obtain x c1 r1 where cn: "chain_next c r = (x, c1, r1)" by (cases "chain_next c r") auto
  note k = chain_next_keeps[OF cn]
  show ?case
  proof (cases x)
    case (Inl ex)
    with Suc.prems cn k show ?thesis by auto
  next
    case (Inr v)
    obtain vs1 e1 c2 r2 where p: "pull n c1 r1 = (vs1, e1, c2, r2)"
      by (cases "pull n c1 r1") auto
    with Suc.prems cn Inr have "r' = r2" by simp
    with Suc.IH[OF p] k show ?thesis by simp
  qed
qed

lemma first_flag: "raise_on_empty (snd (first r))"
  by (auto simp: first_def Let_def split: prod.splits dest: chain_next_keeps)

lemma one_flag: "raise_on_empty (snd (one r))"
  by (auto simp: one_def Let_def split: prod.splits sum.splits dest!: chain_next_keeps)

lemma first_or_none_flag: "raise_on_empty (snd (first_or_none r))"
  using first_flag[of r]
  by (auto simp: first_or_none_def split: prod.splits sum.splits)

lemma one_or_none_flag: "raise_on_empty (snd (one_or_none r))"
  using one_flag[of r]
  by (auto simp: one_or_none_def split: prod.splits sum.splits)

section \<open>The gate on a response that is parsed\<close>

lemma ijson_empty_result:
  "ijson_parse (JObj [(''result'', JArr [])]) =
     [([], start_map), ([], map_key ''result''), (''result'', start_array),
      (''result'', end_array), ([], end_map)]"
  by (simp add: ijson_parse_def)

lemma chain_start_passes:
  "passes_gate (response r) \<Longrightarrow>
     chain_next (all_records r0) r =
     chain_next (Chain Gate_parsed (Some (Generator (parse_response r)))) r"
  by (auto simp: all_records_def passes_gate_def)

lemma chain_parsed:
  "chain_next (Chain Gate_parsed (Some (Generator f))) r =
     (case parse_next f r of
        (Inr v, f', r') \<Rightarrow> (Inr v, Chain Gate_parsed (Some (Generator f')), r')
      | (Inl e, f', r') \<Rightarrow>
          (if e = StopIteration then (Inl StopIteration, Chain Gate_closed None, r')
           else (Inl e, Chain Gate_parsed (Some (Generator f')), r')))"
  by (simp split: prod.splits sum.splits)

lemma for_loop_empty_result:
  "for_loop [([], start_map), ([], map_key ''result''), (''result'', start_array),
      (''result'', end_array), ([], end_map)] locals_init r =
   after_loop (locals_init\<lparr>builder := Some ObjectBuilder_init, has_result_many := True\<rparr>) r"
  by (simp add: loop_body_def match_root_def dispatch_def locals_init_def startswith_def)

section \<open>An empty result\<close>

text \<open>
  C5. For a document shaped \<open>{"result": []}\<close> on a response whose body is parsed: with
  raise-on-empty false, iterating \<open>all()\<close> yields exactly one record, the empty mapping, and
  is then exhausted; with raise-on-empty true, iterating fails with \<open>NoResults\<close> before any
  record.
\<close>

theorem empty_result:
  assumes "passes_gate resp" and "raw resp = ijson_parse (JObj [(''result'', JArr [])])"
  shows "fst (pull (Suc (Suc n)) (all_records (Response_init resp False chunk))
                (Response_init resp False chunk)) = [JObj []]
       \<and> fst (snd (pull (Suc (Suc n)) (all_records (Response_init resp False chunk))
                (Response_init resp False chunk))) = Some StopIteration
       \<and> fst (pull (Suc n) (all_records (Response_init resp True chunk))
                (Response_init resp True chunk)) = []
       \<and> fst (snd (pull (Suc n) (all_records (Response_init resp True chunk))
                (Response_init resp True chunk))) = Some NoResults"
proof -
  have g: "passes_gate (response (Response_init resp b chunk))" for b
    by (simp add: Response_init_def assms)
  have p: "parse_next (parse_response (Response_init resp b chunk)) (Response_init resp b chunk) =
             after_loop (locals_init\<lparr>builder := Some ObjectBuilder_init, has_result_many := True\<rparr>)
               (Response_init resp b chunk)" for b
    unfolding parse_response_def
    by (simp add: Response_init_def assms ijson_empty_result for_loop_empty_result
             del: for_loop.simps)
  have c: "count (Response_init resp b chunk) = 0"
          "raise_on_empty (Response_init resp b chunk) = b" for b
    by (simp_all add: Response_init_def)
  show ?thesis
    by (simp add: chain_start_passes[OF g] chain_parsed p after_loop_def missing_check_def c
                  locals_init_def del: chain_next.simps)
qed

theorem empty_result_witness:
  "passes_gate \<lparr>status_code = 200, request_method = ''GET'',
                 raw = ijson_parse (JObj [(''result'', JArr [])])\<rparr>
   \<and> fst (pull (Suc (Suc 0))
        (all_records (Response_init \<lparr>status_code = 200, request_method = ''GET'',
                 raw = ijson_parse (JObj [(''result'', JArr [])])\<rparr> False 1024))
        (Response_init \<lparr>status_code = 200, request_method = ''GET'',
                 raw = ijson_parse (JObj [(''result'', JArr [])])\<rparr> False 1024)) = [JObj []]
   \<and> fst (snd (pull (Suc 0)
        (all_records (Response_init \<lparr>status_code = 200, request_method = ''GET'',
                 raw = ijson_parse (JObj [(''result'', JArr [])])\<rparr> True 1024))
        (Response_init \<lparr>status_code = 200, request_method = ''GET'',
                 raw = ijson_parse (JObj [(''result'', JArr [])])\<rparr> True 1024))) = Some NoResults"
proof -
  have h: "passes_gate \<lparr>status_code = 200, request_method = ''GET'',
                 raw = ijson_parse (JObj [(''result'', JArr [])])\<rparr>"
    by (simp add: passes_gate_def raise_for_status_def)
  show ?thesis
    using h empty_result[OF h, of 0 1024] by simp
qed

section \<open>Evaluating the parser on a given document\<close>

lemmas run_defs =
  ijson_parse_def loop_body_def match_root_def dispatch_def feed_def feed_and_yield_def
  startswith_def locals_init_def ObjectBuilder_init_def after_loop_def missing_check_def
  Response_init_def parse_response_def all_records_def dict_set_def list_append_def
  raise_for_status_def first_def one_def first_or_none_def one_or_none_def Let_def

section \<open>Setting the OAuth token\<close>

text \<open>
  C10. \<open>set_token(token)\<close> with a falsy argument sets the stored token to \<open>None\<close> and
  returns. With a truthy argument that is not a dict, or that is a dict missing one of the
  keys \<open>token_type\<close>, \<open>refresh_token\<close>, \<open>access_token\<close>, \<open>scope\<close>, \<open>expires_in\<close>,
  \<open>expires_at\<close>, it raises \<open>InvalidUsage\<close> and leaves the stored token as it was.
  With a dict that has all six keys it stores the given token.
\<close>

theorem set_token_cases:
  "(\<not> truthy tok \<longrightarrow> set_token tok c = (None, c\<lparr>token := PyNone\<rparr>))
   \<and> (truthy tok \<and> \<not> isinstance_dict tok \<longrightarrow>
        set_token tok c = (Some InvalidUsage, c))
   \<and> (truthy (PyDict kvs) \<and>
        (\<exists>k \<in> set [''token_type'', ''refresh_token'', ''access_token'', ''scope'',
                     ''expires_in'', ''expires_at'']. PyStr k \<notin> fst ` set kvs) \<longrightarrow>
        set_token (PyDict kvs) c = (Some InvalidUsage, c)
        \<and> token (snd (set_token (PyDict kvs) c)) = token c)
   \<and> (truthy (PyDict kvs) \<and>
        (\<forall>k \<in> set [''token_type'', ''refresh_token'', ''access_token'', ''scope'',
                     ''expires_in'', ''expires_at'']. PyStr k \<in> fst ` set kvs) \<longrightarrow>
        set_token (PyDict kvs) c = (None, c\<lparr>token := PyDict kvs\<rparr>))"
  by (auto simp: set_token_def expected_keys_def)

theorem set_token_cases_witness:
  "set_token (PyStr '''') \<lparr>client_id = ''id'', client_secret = ''s'', token = PyInt 7\<rparr>
     = (None, \<lparr>client_id = ''id'', client_secret = ''s'', token = PyNone\<rparr>)
   \<and> set_token (PyStr ''abc'') \<lparr>client_id = ''id'', client_secret = ''s'', token = PyInt 7\<rparr>
     = (Some InvalidUsage, \<lparr>client_id = ''id'', client_secret = ''s'', token = PyInt 7\<rparr>)
   \<and> set_token (PyDict [(PyStr ''token_type'', PyStr ''Bearer'')])
        \<lparr>client_id = ''id'', client_secret = ''s'', token = PyInt 7\<rparr>
     = (Some InvalidUsage, \<lparr>client_id = ''id'', client_secret = ''s'', token = PyInt 7\<rparr>)
   \<and> set_token (PyDict [(PyStr ''token_type'', PyStr ''Bearer''), (PyStr ''refresh_token'', PyStr ''r''),
                         (PyStr ''access_token'', PyStr ''a''), (PyStr ''scope'', PyStr ''u''),
                         (PyStr ''expires_in'', PyInt 1), (PyStr ''expires_at'', PyInt 2)])
        \<lparr>client_id = ''id'', client_secret = ''s'', token = PyInt 7\<rparr>
     = (None, \<lparr>client_id = ''id'', client_secret = ''s'',
               token = PyDict [(PyStr ''token_type'', PyStr ''Bearer''), (PyStr ''refresh_token'', PyStr ''r''),
                         (PyStr ''access_token'', PyStr ''a''), (PyStr ''scope'', PyStr ''u''),
                         (PyStr ''expires_in'', PyInt 1), (PyStr ''expires_at'', PyInt 2)]\<rparr>)"
  using set_token_cases[of "PyStr ''''" "\<lparr>client_id = ''id'', client_secret = ''s'', token = PyInt 7\<rparr>" "[]"]
        set_token_cases[of "PyStr ''abc''" "\<lparr>client_id = ''id'', client_secret = ''s'', token = PyInt 7\<rparr>" "[]"]
        set_token_cases[of PyNone "\<lparr>client_id = ''id'', client_secret = ''s'', token = PyInt 7\<rparr>"
                           "[(PyStr ''token_type'', PyStr ''Bearer'')]"]
        set_token_cases[of PyNone "\<lparr>client_id = ''id'', client_secret = ''s'', token = PyInt 7\<rparr>"
                           "[(PyStr ''token_type'', PyStr ''Bearer''), (PyStr ''refresh_token'', PyStr ''r''),
                         (PyStr ''access_token'', PyStr ''a''), (PyStr ''scope'', PyStr ''u''),
                         (PyStr ''expires_in'', PyInt 1), (PyStr ''expires_at'', PyInt 2)]"]
  by simp

section \<open>The accessors force raise-on-empty\<close>

text \<open>
  C9. \<open>first()\<close>, \<open>first_or_none()\<close>, \<open>one()\<close> and \<open>one_or_none()\<close> leave the flag
  \<open>_raise_on_empty\<close> of the \<open>Response\<close> set, whatever it was at construction and however
  the call ends; iterating \<open>all()\<close> never clears it. Every later call on the same object
  therefore runs with raise-on-empty true.
\<close>

theorem accessors_force_raise_on_empty:
  "raise_on_empty (snd (first r)) \<and> raise_on_empty (snd (first_or_none r))
   \<and> raise_on_empty (snd (one r)) \<and> raise_on_empty (snd (one_or_none r))
   \<and> (raise_on_empty r \<longrightarrow> raise_on_empty (snd (snd (snd (pull n c r)))))"
proof -
  have "raise_on_empty (snd (snd (snd (pull n c r)))) = raise_on_empty r"
    using pull_keeps[of n c r] by (cases "pull n c r") auto
  then show ?thesis
    by (simp add: first_flag first_or_none_flag one_flag one_or_none_flag)
qed

theorem accessors_force_raise_on_empty_witness:
  "\<not> raise_on_empty (Response_init \<lparr>status_code = 404, request_method = ''GET'', raw = []\<rparr> False 1024)
   \<and> raise_on_empty (snd (first_or_none
        (Response_init \<lparr>status_code = 404, request_method = ''GET'', raw = []\<rparr> False 1024)))
   \<and> raise_on_empty (snd (snd (snd (pull (Suc 0) (Chain Gate_start None)
        (snd (first_or_none
          (Response_init \<lparr>status_code = 404, request_method = ''GET'', raw = []\<rparr> False 1024)))))))"
  using accessors_force_raise_on_empty
          [of "Response_init \<lparr>status_code = 404, request_method = ''GET'', raw = []\<rparr> False 1024"]
        accessors_force_raise_on_empty
          [of "snd (first_or_none
                 (Response_init \<lparr>status_code = 404, request_method = ''GET'', raw = []\<rparr> False 1024))"
              "Suc 0" "Chain Gate_start None"]
  by (simp add: Response_init_def)

text \<open>
  What this changes for the caller: on a 404 response built with raise-on-empty false,
  \<open>all()\<close> starts with an empty record; after \<open>first_or_none()\<close> returned \<open>None\<close> on the
  same object, \<open>all()\<close> fails with \<open>NoResults\<close>.
\<close>

lemma flag_sticks_on_not_found:
  "fst (chain_next (all_records (Response_init \<lparr>status_code = 404, request_method = ''GET'', raw = []\<rparr> False 1024))
          (Response_init \<lparr>status_code = 404, request_method = ''GET'', raw = []\<rparr> False 1024))
     = Inr (JObj [])
   \<and> fst (chain_next
            (all_records (snd (first_or_none
               (Response_init \<lparr>status_code = 404, request_method = ''GET'', raw = []\<rparr> False 1024))))
            (snd (first_or_none
               (Response_init \<lparr>status_code = 404, request_method = ''GET'', raw = []\<rparr> False 1024))))
     = Inl NoResults"
  by (simp add: run_defs)

section \<open>Status 404\<close>

text \<open>
  C3 (as amended). For every response with status 404: when raise-on-empty is true,
  iterating \<open>all()\<close> fails with \<open>NoResults\<close> before any record; \<open>first()\<close> and \<open>one()\<close>
  fail with \<open>NoResults\<close>, and \<open>first_or_none()\<close> and \<open>one_or_none()\<close> return \<open>None\<close>,
  whatever the flag was, since they set it; when raise-on-empty is false, the first record
  that \<open>all()\<close> yields is one empty record.
\<close>

theorem not_found:
  assumes "status_code (response r) = 404"
  shows "(raise_on_empty r \<longrightarrow>
            pull (Suc n) (all_records r) r = ([], Some NoResults, Chain Gate_closed None, r))
       \<and> first r = (Inl NoResults, r\<lparr>raise_on_empty := True\<rparr>)
       \<and> one r = (Inl NoResults, r\<lparr>raise_on_empty := True\<rparr>)
       \<and> first_or_none r = (Inr None, r\<lparr>raise_on_empty := True\<rparr>)
       \<and> one_or_none r = (Inr None, r\<lparr>raise_on_empty := True\<rparr>)
       \<and> (\<not> raise_on_empty r \<longrightarrow>
            chain_next (all_records r) r =
              (Inr (JObj []), Chain Gate_not_found (Some (Listed [])), r))"
  using assms
  by (simp add: all_records_def raise_for_status_def first_def one_def first_or_none_def
                one_or_none_def)

theorem not_found_witness:
  "status_code (response (Response_init \<lparr>status_code = 404, request_method = ''GET'', raw = []\<rparr> False 1024)) = 404
   \<and> first (Response_init \<lparr>status_code = 404, request_method = ''GET'', raw = []\<rparr> False 1024)
       = (Inl NoResults, Response_init \<lparr>status_code = 404, request_method = ''GET'', raw = []\<rparr> True 1024)
   \<and> chain_next (all_records (Response_init \<lparr>status_code = 404, request_method = ''GET'', raw = []\<rparr> False 1024))
        (Response_init \<lparr>status_code = 404, request_method = ''GET'', raw = []\<rparr> False 1024)
       = (Inr (JObj []), Chain Gate_not_found (Some (Listed [])),
          Response_init \<lparr>status_code = 404, request_method = ''GET'', raw = []\<rparr> False 1024)
   \<and> pull (Suc 0) (all_records (Response_init \<lparr>status_code = 404, request_method = ''GET'', raw = []\<rparr> True 1024))
        (Response_init \<lparr>status_code = 404, request_method = ''GET'', raw = []\<rparr> True 1024)
       = ([], Some NoResults, Chain Gate_closed None,
          Response_init \<lparr>status_code = 404, request_method = ''GET'', raw = []\<rparr> True 1024)"
proof -
  have h: "status_code (response (Response_init \<lparr>status_code = 404, request_method = ''GET'', raw = []\<rparr> b 1024)) = 404" for b
    by (simp add: Response_init_def)
  show ?thesis
    using h[of False] not_found[OF h[of False], of 0] not_found[OF h[of True], of 0]
    by (simp add: Response_init_def)
qed

text \<open>
  The claim as stated fails twice. With raise-on-empty true \<open>first_or_none()\<close> does not
  fail: it returns \<open>None\<close>. With raise-on-empty false the generator goes on after
  \<open>yield [{}]\<close> to \<open>yield self._parse_response()\<close>, so the body of the 404 response is
  parsed as well: with the error body below, \<open>all()\<close> yields the empty record and then
  raises \<open>ResponseError\<close>.
\<close>

theorem not_found_counterexample:
  "raise_on_empty (Response_init \<lparr>status_code = 404, request_method = ''GET'', raw = []\<rparr> True 1024)
   \<and> fst (first_or_none (Response_init \<lparr>status_code = 404, request_method = ''GET'', raw = []\<rparr> True 1024))
       = Inr None
   \<and> fst (first_or_none (Response_init \<lparr>status_code = 404, request_method = ''GET'', raw = []\<rparr> True 1024))
       \<noteq> Inl NoResults
   \<and> pull (Suc (Suc 0))
        (all_records (Response_init \<lparr>status_code = 404, request_method = ''GET'',
            raw = ijson_parse (JObj [(''error'', JObj [(''message'', JStr ''m''), (''detail'', JStr ''d'')])])\<rparr> False 1024))
        (Response_init \<lparr>status_code = 404, request_method = ''GET'',
            raw = ijson_parse (JObj [(''error'', JObj [(''message'', JStr ''m''), (''detail'', JStr ''d'')])])\<rparr> False 1024)
       = ([JObj []], Some (ResponseError (JObj [(''message'', JStr ''m''), (''detail'', JStr ''d'')])),
          Chain Gate_parsed (Some (Generator Closed)),
          Response_init \<lparr>status_code = 404, request_method = ''GET'',
            raw = ijson_parse (JObj [(''error'', JObj [(''message'', JStr ''m''), (''detail'', JStr ''d'')])])\<rparr> False 1024)"
  by (simp add: run_defs)

section \<open>An error object after a result\<close>

text \<open>
  C1. The claim: a root \<open>error\<close> object raises \<open>ResponseError\<close> when it closes, also when
  a \<open>result\<close> key came earlier in the document. The code at
  \<open>{"result": [{"z": true}], "error": {"message": "m", "detail": "d"}}\<close>: once
  \<open>has_result_many\<close> is set, the branch \<open>elif has_error\<close> is never reached, the error
  object is skipped, and iterating \<open>all()\<close> yields the record and ends without an exception.
\<close>

theorem result_then_error_is_silent:
  "pull (Suc (Suc 0))
     (all_records (Response_init \<lparr>status_code = 200, request_method = ''GET'',
        raw = ijson_parse (JObj [(''result'', JArr [JObj [(''z'', JBool True)]]),
                                 (''error'', JObj [(''message'', JStr ''m''), (''detail'', JStr ''d'')])])\<rparr> True 1024))
     (Response_init \<lparr>status_code = 200, request_method = ''GET'',
        raw = ijson_parse (JObj [(''result'', JArr [JObj [(''z'', JBool True)]]),
                                 (''error'', JObj [(''message'', JStr ''m''), (''detail'', JStr ''d'')])])\<rparr> True 1024)
   = ([JObj [(''z'', JBool True)]], Some StopIteration, Chain Gate_closed None,
      (Response_init \<lparr>status_code = 200, request_method = ''GET'',
        raw = ijson_parse (JObj [(''result'', JArr [JObj [(''z'', JBool True)]]),
                                 (''error'', JObj [(''message'', JStr ''m''), (''detail'', JStr ''d'')])])\<rparr> True 1024)
        \<lparr>count := 1\<rparr>)"
  by (simp add: run_defs)

section \<open>The count\<close>

lemma loop_body_count:
  "loop_body pe l r = Yielded v l' r' \<Longrightarrow> count r' = count r + 1"
  "loop_body pe l r = Raised e r' \<Longrightarrow> e \<noteq> AttributeError \<Longrightarrow> r' = r"
  by (auto simp: loop_body_def dispatch_def feed_def feed_and_yield_def
           split: if_splits option.splits sum.splits)

lemma for_loop_count:
  "for_loop pes l r = (res, f', r') \<Longrightarrow>
     (case res of
        Inr v \<Rightarrow> (\<exists>pes' l'. f' = In_loop pes' l' \<and> count r' = count r + 1)
                \<or> (\<exists>l'. f' = After_empty l' \<and> v = JObj [] \<and> r' = r \<and> count r = 0
                         \<and> \<not> raise_on_empty r)
      | Inl e \<Rightarrow> f' = Closed \<and> (e \<noteq> AttributeError \<longrightarrow> count r' = count r))"
proof (induction pes arbitrary: l r)
  case Nil
  then show ?case
    by (auto simp: after_loop_def missing_check_def split: if_splits)
next
  case (Cons pe pes)
  show ?case
  proof (cases "loop_body pe l r")
    case (Continue l1 r1)
    with Cons.prems have "for_loop pes l1 r1 = (res, f', r')" by simp
    from Cons.IH[OF this] loop_body_keeps(1)[OF Continue] show ?thesis
      by (auto split: sum.splits)
  next
    case (Yielded v l1 r1)
    with Cons.prems loop_body_count(1)[OF Yielded] show ?thesis by auto
  next
    case (Raised e r1)
    with Cons.prems loop_body_count(2)[OF Raised] show ?thesis by auto
  qed
qed

lemma parse_pull_finished:
  "f = After_empty l \<or> f = Closed \<Longrightarrow> parse_pull n f r = (vs, e, f', r') \<Longrightarrow> vs = [] \<and> r' = r"
  by (cases n) (auto simp: missing_check_def split: if_splits)

lemma parse_pull_count:
  "parse_pull n (In_loop pes l) r = (vs, e, f', r') \<Longrightarrow> e \<noteq> Some AttributeError \<Longrightarrow>
     count r' = count r + int (length vs)
     \<or> (count r' = 0 \<and> count r' = count r + int (length vs) - 1 \<and> vs \<noteq> []
          \<and> last vs = JObj [] \<and> \<not> raise_on_empty r)"
proof (induction n arbitrary: pes l r vs e f' r')
  case 0
  then show ?case by simp
next
  case (Suc n)
  obtain res f1 r1 where step: "for_loop pes l r = (res, f1, r1)"
    by (cases "for_loop pes l r") auto
  note c = for_loop_count[OF step] and k = for_loop_keeps[OF step]
  show ?case
  proof (cases res)
    case (Inl ex)
    with Suc.prems step c show ?thesis by auto
  next
    case (Inr v)
    obtain vs1 e1 f2 r2 where rest: "parse_pull n f1 r1 = (vs1, e1, f2, r2)"
      by (cases "parse_pull n f1 r1") auto
    from Suc.prems(1) step Inr rest
    have eqs: "vs = v # vs1" "e = e1" "r' = r2" by simp_all
    from c Inr consider
        (item) pes' l' where "f1 = In_loop pes' l'" "count r1 = count r + 1"
      | (empty) l' where "f1 = After_empty l'" "v = JObj []" "r1 = r" "count r = 0"
                         "\<not> raise_on_empty r"
      by auto
    then show ?thesis
    proof cases
      case item
      from rest item(1) have "parse_pull n (In_loop pes' l') r1 = (vs1, e1, f2, r2)" by simp
      from Suc.IH[OF this] Suc.prems(2) eqs item(2) k show ?thesis by auto
    next
      case empty
      from parse_pull_finished[OF _ rest] empty(1) have "vs1 = []" "r2 = r1" by auto
      with eqs empty show ?thesis by simp
    qed
  qed
qed

text \<open>
  C4 (as amended). Within one parse pass, \<open>count\<close> is incremented once for each record
  built from the document, when that record is yielded. At every point of the pass (short
  of an \<open>AttributeError\<close> of the builder) it equals its value at the start of the pass, zero
  on a new \<open>Response\<close>, plus the number of records yielded so far; the one exception is the
  empty record yielded last for an empty result, with count zero and raise-on-empty false,
  which is not counted.
\<close>

theorem count_tracks_built_records:
  assumes "parse_pull n (parse_response r) r = (vs, e, f', r')" and "e \<noteq> Some AttributeError"
  shows "count r' = count r + int (length vs)
       \<or> (count r' = 0 \<and> count r' = count r + int (length vs) - 1 \<and> vs \<noteq> []
            \<and> last vs = JObj [] \<and> \<not> raise_on_empty r)"
  using assms unfolding parse_response_def by (rule parse_pull_count)

theorem count_tracks_built_records_witness:
  "parse_pull (Suc (Suc (Suc 0)))
     (parse_response (Response_init \<lparr>status_code = 200, request_method = ''GET'',
        raw = ijson_parse (JObj [(''result'', JArr [JObj [(''z'', JBool True)], JObj []])])\<rparr> False 1024))
     (Response_init \<lparr>status_code = 200, request_method = ''GET'',
        raw = ijson_parse (JObj [(''result'', JArr [JObj [(''z'', JBool True)], JObj []])])\<rparr> False 1024)
   = ([JObj [(''z'', JBool True)], JObj []], Some StopIteration, Closed,
      (Response_init \<lparr>status_code = 200, request_method = ''GET'',
        raw = ijson_parse (JObj [(''result'', JArr [JObj [(''z'', JBool True)], JObj []])])\<rparr> False 1024)
        \<lparr>count := 2\<rparr>)
   \<and> Some StopIteration \<noteq> Some AttributeError
   \<and> count ((Response_init \<lparr>status_code = 200, request_method = ''GET'',
        raw = ijson_parse (JObj [(''result'', JArr [JObj [(''z'', JBool True)], JObj []])])\<rparr> False 1024)
        \<lparr>count := 2\<rparr>)
      = count (Response_init \<lparr>status_code = 200, request_method = ''GET'',
        raw = ijson_parse (JObj [(''result'', JArr [JObj [(''z'', JBool True)], JObj []])])\<rparr> False 1024)
        + int (length [JObj [(''z'', JBool True)], JObj []])"
proof -
  have run: "parse_pull (Suc (Suc (Suc 0)))
     (parse_response (Response_init \<lparr>status_code = 200, request_method = ''GET'',
        raw = ijson_parse (JObj [(''result'', JArr [JObj [(''z'', JBool True)], JObj []])])\<rparr> False 1024))
     (Response_init \<lparr>status_code = 200, request_method = ''GET'',
        raw = ijson_parse (JObj [(''result'', JArr [JObj [(''z'', JBool True)], JObj []])])\<rparr> False 1024)
   = ([JObj [(''z'', JBool True)], JObj []], Some StopIteration, Closed,
      (Response_init \<lparr>status_code = 200, request_method = ''GET'',
        raw = ijson_parse (JObj [(''result'', JArr [JObj [(''z'', JBool True)], JObj []])])\<rparr> False 1024)
        \<lparr>count := 2\<rparr>)"
    by (simp add: run_defs)
  have ne: "Some StopIteration \<noteq> Some AttributeError" by simp
  show ?thesis
    using run ne count_tracks_built_records[OF run ne] by simp
qed

text \<open>
  The claim as stated fails for \<open>{"result": []}\<close> with raise-on-empty false: the pass
  yields one record and \<open>count\<close> stays zero.
\<close>

theorem placeholder_not_counted:
  "parse_pull (Suc (Suc 0))
     (parse_response (Response_init \<lparr>status_code = 200, request_method = ''GET'',
        raw = ijson_parse (JObj [(''result'', JArr [])])\<rparr> False 1024))
     (Response_init \<lparr>status_code = 200, request_method = ''GET'',
        raw = ijson_parse (JObj [(''result'', JArr [])])\<rparr> False 1024)
   = ([JObj []], Some StopIteration, Closed,
      Response_init \<lparr>status_code = 200, request_method = ''GET'',
        raw = ijson_parse (JObj [(''result'', JArr [])])\<rparr> False 1024)
   \<and> count (Response_init \<lparr>status_code = 200, request_method = ''GET'',
        raw = ijson_parse (JObj [(''result'', JArr [])])\<rparr> False 1024) \<noteq> int (length [JObj []])"
  by (simp add: run_defs)

section \<open>A root that matches nothing\<close>

lemma dotted_has_dot: "2 \<le> length p \<Longrightarrow> CHR ''.'' \<in> set (dotted p)"
  by (induction p rule: dotted.induct) auto

lemma nested_prefix_has_dot:
  "pe \<in> set (events_at p v) \<Longrightarrow> 2 \<le> length p \<Longrightarrow> CHR ''.'' \<in> set (fst pe)"
proof (induction p v arbitrary: pe rule: events_at.induct)
  case (1 p kvs)
  from "1.prems"(1) consider "fst pe = dotted p"
    | kv where "kv \<in> set kvs" "pe \<in> set (events_at (p @ [fst kv]) (snd kv))"
    by auto
  then show ?case
  proof cases
    case 1
    with "1.prems"(2) show ?thesis by (simp add: dotted_has_dot)
  next
    case 2
    from "1.IH"[OF 2(1) 2(2)] "1.prems"(2) show ?thesis by simp
  qed
next
  case (2 p xs)
  from "2.prems"(1) consider "fst pe = dotted p"
    | x where "x \<in> set xs" "pe \<in> set (events_at (p @ [''item'']) x)"
    by auto
  then show ?case
  proof cases
    case 1
    with "2.prems"(2) show ?thesis by (simp add: dotted_has_dot)
  next
    case 2
    from "2.IH"[OF 2(1) 2(2)] "2.prems"(2) show ?thesis by simp
  qed
qed (auto simp: dotted_has_dot)

lemma dot_quiet: "CHR ''.'' \<in> set (fst pe) \<Longrightarrow> quiet pe"
  by (cases pe) (auto simp: quiet_def)

lemma below_key_quiet:
  assumes "pe \<in> set (events_at [k] v)"
    and "\<not> (k = ''result'' \<and> (is_object v \<or> is_array v))"
    and "\<not> (k = ''error'' \<and> is_object v)"
  shows "quiet pe"
proof (cases v)
  case (JObj kvs)
  with assms(1) consider "fst pe = k" "snd pe \<in> {start_map, end_map} \<union> range map_key"
    | kv where "pe \<in> set (events_at [k, fst kv] (snd kv))"
    by auto
  then show ?thesis
  proof cases
    case 1
    with assms(2,3) JObj show ?thesis by (cases pe) (auto simp: quiet_def)
  next
    case 2
    then show ?thesis by (intro dot_quiet nested_prefix_has_dot[OF 2]) simp
  qed
next
  case (JArr xs)
  with assms(1) consider "fst pe = k" "snd pe \<in> {start_array, end_array}"
    | x where "pe \<in> set (events_at [k, ''item''] x)"
    by auto
  then show ?thesis
  proof cases
    case 1
    with assms(2,3) JArr show ?thesis by (cases pe) (auto simp: quiet_def)
  next
    case 2
    then show ?thesis by (intro dot_quiet nested_prefix_has_dot[OF 2]) simp
  qed
qed (use assms in \<open>auto simp: quiet_def\<close>)

lemma unmatched_root_quiet:
  assumes "\<not> root_matches doc" and "pe \<in> set (ijson_parse doc)"
  shows "quiet pe"
proof (cases doc)
  case (JObj kvs)
  with assms(2) consider "fst pe = []"
    | kv where "kv \<in> set kvs" "pe \<in> set (events_at [fst kv] (snd kv))"
    by (auto simp: ijson_parse_def)
  then show ?thesis
  proof cases
    case 1
    then show ?thesis by (cases pe) (auto simp: quiet_def)
  next
    case 2
    from assms(1) JObj 2(1)
    have "\<not> (fst kv = ''result'' \<and> (is_object (snd kv) \<or> is_array (snd kv)))"
         "\<not> (fst kv = ''error'' \<and> is_object (snd kv))"
      by (auto simp: list_ex_iff)
    with 2(2) show ?thesis by (rule below_key_quiet)
  qed
next
  case (JArr xs)
  with assms(2) consider "fst pe = []"
    | x where "pe \<in> set (events_at [''item''] x)"
    by (auto simp: ijson_parse_def)
  then show ?thesis
  proof cases
    case 1
    then show ?thesis by (cases pe) (auto simp: quiet_def)
  next
    case 2
    then show ?thesis by (rule below_key_quiet) simp_all
  qed
qed (use assms in \<open>auto simp: quiet_def ijson_parse_def\<close>)

lemma quiet_loop:
  assumes "\<forall>pe \<in> set pes. quiet pe"
    and "\<not> has_result_single l" "\<not> has_result_many l" "\<not> has_error l"
  shows "for_loop pes l r = (Inl MissingResult, Closed, r)"
  using assms
proof (induction pes)
  case Nil
  then show ?case by (simp add: after_loop_def missing_check_def)
next
  case (Cons pe pes)
  from Cons.prems have "loop_body pe l r = Continue l r"
    by (cases pe) (auto simp: quiet_def loop_body_def match_root_def dispatch_def)
  with Cons show ?case by simp
qed

text \<open>
  C8. For every document whose root has neither a key \<open>result\<close> with an object or an
  array nor a key \<open>error\<close> with an object, on a response whose body is parsed: iterating
  \<open>all()\<close> fails with \<open>MissingResult\<close> before any record, and so do \<open>first()\<close>,
  \<open>first_or_none()\<close>, \<open>one()\<close> and \<open>one_or_none()\<close>.
\<close>

theorem unexpected_root:
  assumes "passes_gate (response r)" and "raw (response r) = ijson_parse doc"
    and "\<not> root_matches doc"
  shows "pull (Suc n) (all_records r) r
           = ([], Some MissingResult, Chain Gate_parsed (Some (Generator Closed)), r)
       \<and> fst (first r) = Inl MissingResult \<and> fst (first_or_none r) = Inl MissingResult
       \<and> fst (one r) = Inl MissingResult \<and> fst (one_or_none r) = Inl MissingResult"
proof -
  have q: "\<forall>pe \<in> set (ijson_parse doc). quiet pe"
    using unmatched_root_quiet[OF assms(3)] by blast
  have step: "chain_next (all_records r0) r1 =
                (Inl MissingResult, Chain Gate_parsed (Some (Generator Closed)), r1)"
    if "response r1 = response r" for r0 r1
  proof -
    from that assms(1) have g: "passes_gate (response r1)" by simp
    have "parse_next (parse_response r1) r1 = (Inl MissingResult, Closed, r1)"
      unfolding parse_response_def
      by (simp add: that assms(2) quiet_loop[OF q] locals_init_def del: for_loop.simps)
    then show ?thesis
      by (simp add: chain_start_passes[OF g] chain_parsed del: chain_next.simps)
  qed
  show ?thesis
    by (simp add: step first_def one_def first_or_none_def one_or_none_def
             del: chain_next.simps)
qed

theorem unexpected_root_witness:
  "passes_gate (response (Response_init \<lparr>status_code = 200, request_method = ''GET'',
       raw = ijson_parse (JObj [(''unexpected'', JNum (Integer 1))])\<rparr> False 1024))
   \<and> \<not> root_matches (JObj [(''unexpected'', JNum (Integer 1))])
   \<and> pull (Suc 0)
        (all_records (Response_init \<lparr>status_code = 200, request_method = ''GET'',
           raw = ijson_parse (JObj [(''unexpected'', JNum (Integer 1))])\<rparr> False 1024))
        (Response_init \<lparr>status_code = 200, request_method = ''GET'',
           raw = ijson_parse (JObj [(''unexpected'', JNum (Integer 1))])\<rparr> False 1024)
       = ([], Some MissingResult, Chain Gate_parsed (Some (Generator Closed)),
          Response_init \<lparr>status_code = 200, request_method = ''GET'',
           raw = ijson_parse (JObj [(''unexpected'', JNum (Integer 1))])\<rparr> False 1024)
   \<and> fst (first_or_none (Response_init \<lparr>status_code = 200, request_method = ''GET'',
           raw = ijson_parse (JObj [(''unexpected'', JNum (Integer 1))])\<rparr> False 1024))
       = Inl MissingResult"
proof -
  let ?R = "Response_init \<lparr>status_code = 200, request_method = ''GET'',
       raw = ijson_parse (JObj [(''unexpected'', JNum (Integer 1))])\<rparr> False 1024"
  have h1: "passes_gate (response ?R)"
    by (simp add: passes_gate_def raise_for_status_def Response_init_def)
  have h2: "raw (response ?R) = ijson_parse (JObj [(''unexpected'', JNum (Integer 1))])"
    by (simp add: Response_init_def)
  have h3: "\<not> root_matches (JObj [(''unexpected'', JNum (Integer 1))])" by simp
  from h1 h3 unexpected_root[OF h1 h2 h3, of 0] show ?thesis by blast
qed

section \<open>The builder builds the value of the document\<close>

text \<open>
  References into the value compose, and a reference to a container that was just stored
  reaches that container.
\<close>

lemma map_entry_update: "AList.map_entry k f (AList.update k c kvs) = AList.update k (f c) kvs"
  by (induction kvs) auto

lemma map_entry_twice:
  "AList.map_entry k f (AList.map_entry k g kvs) = AList.map_entry k (\<lambda>x. f (g x)) kvs"
  by (induction kvs) auto

lemma modify_append: "modify (w @ w') f v = modify w (modify w' f) v"
proof (induction w "modify w' f" v rule: modify.induct)
  case (2 k w kvs)
  then have "modify (w @ w') f = modify w (modify w' f)" by (intro ext) simp
  then show ?case by simp
qed auto

lemma modify_twice: "modify w f (modify w g v) = modify w (\<lambda>x. f (g x)) v"
proof (induction w g v arbitrary: f rule: modify.induct)
  case (2 k w g kvs)
  then have "(\<lambda>x. modify w f (modify w g x)) = modify w (\<lambda>x. f (g x))" by (intro ext) simp
  then show ?case by (simp add: map_entry_twice)
qed auto

lemma modify_key_set: "modify [Key k] f (dict_set k c x) = dict_set k (f c) x"
  by (cases x) (auto simp: dict_set_def map_entry_update)

lemma modify_last_append: "modify [Last] f (list_append c x) = list_append (f c) x"
  by (cases x) (auto simp: list_append_def)

lemma call_setter_ok:
  "settable b \<Longrightarrow>
     call_setter (last (containers b)) v b =
       Inr (b\<lparr>builder_value := put (last (containers b)) (key b) v (builder_value b)\<rparr>)"
  by (cases "last (containers b)") (auto simp: settable_def)

lemma list_append_arr: "list_append x (JArr acc) = JArr (acc @ [x])"
  by (simp add: list_append_def)

lemma dict_set_obj: "dict_set k x (JObj acc) = JObj (AList.update k x acc)"
  by (simp add: dict_set_def)

lemma put_append:
  "settable b \<Longrightarrow>
     map_option (modify (stored_at (last (containers b)) b) (list_append x))
        (put (last (containers b)) (key b) (JArr acc) val)
     = put (last (containers b)) (key b) (JArr (acc @ [x])) val"
  by (cases "last (containers b)")
     (auto simp: settable_def option.map_comp comp_def modify_append modify_twice
                 modify_key_set modify_last_append list_append_arr)

lemma put_update:
  "settable b \<Longrightarrow>
     map_option (modify (stored_at (last (containers b)) b) (dict_set k x))
        (put (last (containers b)) (key b) (JObj acc) val)
     = put (last (containers b)) (key b) (JObj (AList.update k x acc)) val"
  by (cases "last (containers b)")
     (auto simp: settable_def option.map_comp comp_def modify_append modify_twice
                 modify_key_set modify_last_append dict_set_obj)

text \<open>
  Fed with the events of a value, at any path, the builder ends with that value handed to
  the setter that was innermost at the start, and with the same stack of setters.
\<close>

lemma feed_all_append:
  "feed_all (xs @ ys) b = (case feed_all xs b of Inl e \<Rightarrow> Inl e | Inr b' \<Rightarrow> feed_all ys b')"
  by (induction xs arbitrary: b) (auto split: sum.splits)

lemma feed_items:
  assumes ih: "\<And>x b. x \<in> set ys \<Longrightarrow> settable b \<Longrightarrow>
                 feed_all (map snd (events_at q x)) b = Inr (built x b)"
    and b: "settable b"
    and cs: "containers bi = containers b @ [array_append (stored_at (last (containers b)) b)]"
    and v: "builder_value bi = put (last (containers b)) (key b) (JArr acc) (builder_value b)"
  shows "feed_all (map snd (concat (map (events_at q) ys)) @ rest) bi =
           feed_all rest
             (bi\<lparr>builder_value := put (last (containers b)) (key b)
                                      (JArr (acc @ map json_loads ys)) (builder_value b),
                  key := fold last_key ys (key bi)\<rparr>)"
  using ih cs v
proof (induction ys arbitrary: bi acc)
  case Nil
  from Nil.prems(3)[symmetric] show ?case by simp
next
  case (Cons y ys)
  have sb: "settable bi" using Cons.prems(2) by (simp add: settable_def)
  have one: "feed_all (map snd (events_at q y)) bi = Inr (built y bi)"
    by (rule Cons.prems(1)) (simp_all add: sb)
  have v1: "builder_value (built y bi) =
              put (last (containers b)) (key b) (JArr (acc @ [json_loads y])) (builder_value b)"
    using put_append[OF b, of "json_loads y" acc "builder_value b"] Cons.prems(2,3)
    by (simp add: built_def)
  have c1: "containers (built y bi) =
              containers b @ [array_append (stored_at (last (containers b)) b)]"
    using Cons.prems(2) by (simp add: built_def)
  have rec: "feed_all (map snd (concat (map (events_at q) ys)) @ rest) (built y bi) =
           feed_all rest
             ((built y bi)\<lparr>builder_value := put (last (containers b)) (key b)
                                      (JArr ((acc @ [json_loads y]) @ map json_loads ys)) (builder_value b),
                  key := fold last_key ys (key (built y bi))\<rparr>)"
    by (rule Cons.IH[OF _ c1 v1]) (simp add: Cons.prems(1))
  show ?case
    using one rec by (simp add: feed_all_append built_def)
qed

lemma feed_entries:
  assumes ih: "\<And>kv b. kv \<in> set kvs \<Longrightarrow> settable b \<Longrightarrow>
                 feed_all (map snd (events_at (p @ [fst kv]) (snd kv))) b = Inr (built (snd kv) b)"
    and b: "settable b"
    and cs: "containers bi = containers b @ [mapping_set (stored_at (last (containers b)) b)]"
    and v: "builder_value bi = put (last (containers b)) (key b) (JObj acc) (builder_value b)"
  shows "feed_all (map snd (concat (map (\<lambda>kv. (pfx, map_key (fst kv))
                                              # events_at (p @ [fst kv]) (snd kv)) kvs)) @ rest) bi =
           feed_all rest
             (bi\<lparr>builder_value := put (last (containers b)) (key b)
                    (JObj (fold (\<lambda>kv a. AList.update (fst kv) (json_loads (snd kv)) a) kvs acc))
                    (builder_value b),
                  key := fold (\<lambda>kv k. last_key (snd kv) (Some (fst kv))) kvs (key bi)\<rparr>)"
  using ih cs v
proof (induction kvs arbitrary: bi acc)
  case Nil
  from Nil.prems(3)[symmetric] show ?case by simp
next
  case (Cons kv kvs)
  let ?bk = "bi\<lparr>key := Some (fst kv)\<rparr>"
  have sb: "settable ?bk" using Cons.prems(2) by (simp add: settable_def)
  have one: "feed_all (map snd (events_at (p @ [fst kv]) (snd kv))) ?bk = Inr (built (snd kv) ?bk)"
    by (rule Cons.prems(1)) (simp_all add: sb)
  have v1: "builder_value (built (snd kv) ?bk) =
              put (last (containers b)) (key b)
                (JObj (AList.update (fst kv) (json_loads (snd kv)) acc)) (builder_value b)"
    using put_update[OF b, of "fst kv" "json_loads (snd kv)" acc "builder_value b"] Cons.prems(2,3)
    by (simp add: built_def)
  have c1: "containers (built (snd kv) ?bk) =
              containers b @ [mapping_set (stored_at (last (containers b)) b)]"
    using Cons.prems(2) by (simp add: built_def)
  have rec: "feed_all (map snd (concat (map (\<lambda>kv. (pfx, map_key (fst kv))
                                              # events_at (p @ [fst kv]) (snd kv)) kvs)) @ rest)
               (built (snd kv) ?bk) =
           feed_all rest
             ((built (snd kv) ?bk)\<lparr>builder_value := put (last (containers b)) (key b)
                    (JObj (fold (\<lambda>kv a. AList.update (fst kv) (json_loads (snd kv)) a) kvs
                             (AList.update (fst kv) (json_loads (snd kv)) acc)))
                    (builder_value b),
                  key := fold (\<lambda>kv k. last_key (snd kv) (Some (fst kv))) kvs
                           (key (built (snd kv) ?bk))\<rparr>)"
    by (rule Cons.IH[OF _ c1 v1]) (simp add: Cons.prems(1))
  show ?case
    using one rec by (simp add: feed_all_append built_def)
qed

lemma feed_value:
  "settable b \<Longrightarrow> feed_all (map snd (events_at p v)) b = Inr (built v b)"
proof (induction p v arbitrary: b rule: events_at.induct)
  case (1 p kvs)
  let ?b1 = "b\<lparr>builder_value := put (last (containers b)) (key b) (JObj []) (builder_value b),
               containers := containers b @ [mapping_set (stored_at (last (containers b)) b)]\<rparr>"
  have start: "builder_event start_map b = Inr ?b1"
    using "1.prems" by (simp add: call_setter_ok) (simp add: settable_def)
  have mid: "feed_all (map snd (concat (map (\<lambda>kv. (dotted p, map_key (fst kv))
                                              # events_at (p @ [fst kv]) (snd kv)) kvs)) @ [end_map]) ?b1 =
           feed_all [end_map]
             (?b1\<lparr>builder_value := put (last (containers b)) (key b)
                    (JObj (fold (\<lambda>kv a. AList.update (fst kv) (json_loads (snd kv)) a) kvs []))
                    (builder_value b),
                  key := fold (\<lambda>kv k. last_key (snd kv) (Some (fst kv))) kvs (key ?b1)\<rparr>)"
    by (rule feed_entries[OF "1.IH" "1.prems"]) simp_all
  show ?case
    using start mid by (simp add: built_def)
next
  case (2 p xs)
  let ?b1 = "b\<lparr>builder_value := put (last (containers b)) (key b) (JArr []) (builder_value b),
               containers := containers b @ [array_append (stored_at (last (containers b)) b)]\<rparr>"
  have start: "builder_event start_array b = Inr ?b1"
    using "2.prems" by (simp add: call_setter_ok) (simp add: settable_def)
  have mid: "feed_all (map snd (concat (map (events_at (p @ [''item''])) xs)) @ [end_array]) ?b1 =
           feed_all [end_array]
             (?b1\<lparr>builder_value := put (last (containers b)) (key b)
                                      (JArr ([] @ map json_loads xs)) (builder_value b),
                  key := fold last_key xs (key ?b1)\<rparr>)"
    by (rule feed_items[OF "2.IH" "2.prems"]) simp_all
  show ?case
    using start mid by (simp add: built_def)
qed (simp_all add: call_setter_ok built_def, simp_all add: settable_def)

section \<open>Which events reach the builder\<close>

lemma quiet_match_root: "quiet pe \<Longrightarrow> match_root pe l = l"
  by (cases pe) (auto simp: quiet_def match_root_def)

lemma fed_body: "fed l pe \<Longrightarrow> loop_body pe l r = feed (snd pe) l r"
proof -
  assume f: "fed l pe"
  then have "match_root pe l = l" by (simp add: fed_def quiet_match_root)
  moreover have "dispatch pe l r = feed (snd pe) l r"
  proof (cases "has_result_many l")
    case True
    with f show ?thesis by (simp add: fed_def dispatch_def)
  next
    case False
    show ?thesis
    proof (cases "has_result_single l")
      case True
      with f False show ?thesis by (simp add: fed_def dispatch_def)
    next
      case s: False
      with f False show ?thesis by (simp add: fed_def dispatch_def)
    qed
  qed
  ultimately show ?thesis by (simp add: loop_body_def)
qed

lemma fed_builder: "fed (l\<lparr>builder := x\<rparr>) pe = fed l pe"
  by (simp add: fed_def)

lemma route:
  assumes "\<forall>pe \<in> set pes. fed l pe" and "builder l = Some b"
    and "feed_all (map snd pes) b = Inr b'"
  shows "for_loop (pes @ rest) l r = for_loop rest (l\<lparr>builder := Some b'\<rparr>) r"
  using assms
proof (induction pes arbitrary: l b)
  case Nil
  then have "l\<lparr>builder := Some b'\<rparr> = l" by simp
  then show ?case by simp
next
  case (Cons pe pes)
  from Cons.prems(3) obtain b1 where b1: "builder_event (snd pe) b = Inr b1"
    and rest: "feed_all (map snd pes) b1 = Inr b'"
    by (auto split: sum.splits)
  from Cons.prems(1) have "loop_body pe l r = feed (snd pe) l r" by (simp add: fed_body)
  with Cons.prems(2) b1 have step: "loop_body pe l r = Continue (l\<lparr>builder := Some b1\<rparr>) r"
    by (simp add: feed_def)
  have "for_loop (pes @ rest) (l\<lparr>builder := Some b1\<rparr>) r =
          for_loop rest (l\<lparr>builder := Some b1, builder := Some b'\<rparr>) r"
    by (rule Cons.IH[OF _ _ rest]) (use Cons.prems(1) in \<open>simp_all add: fed_builder\<close>)
  with step show ?case by simp
qed

lemma dotted_snoc: "p \<noteq> [] \<Longrightarrow> dotted (p @ [k]) = dotted p @ CHR ''.'' # k"
  by (induction p rule: dotted.induct) auto

lemma events_prefix:
  "pe \<in> set (events_at p v) \<Longrightarrow> p \<noteq> [] \<Longrightarrow>
     fst pe = dotted p \<or> (\<exists>t. fst pe = dotted p @ CHR ''.'' # t)"
proof (induction p v arbitrary: pe rule: events_at.induct)
  case (1 p kvs)
  from "1.prems"(1) consider "fst pe = dotted p"
    | kv where "kv \<in> set kvs" "pe \<in> set (events_at (p @ [fst kv]) (snd kv))"
    by auto
  then show ?case
  proof cases
    case 2
    from "1.IH"[OF 2(1) 2(2)] "1.prems"(2) show ?thesis
      by (auto simp: dotted_snoc)
  qed simp
next
  case (2 p xs)
  from "2.prems"(1) consider "fst pe = dotted p"
    | x where "x \<in> set xs" "pe \<in> set (events_at (p @ [''item'']) x)"
    by auto
  then show ?case
  proof cases
    case 2
    from "2.IH"[OF 2(1) 2(2)] "2.prems"(2) show ?thesis
      by (auto simp: dotted_snoc)
  qed simp
qed auto

lemma entries_prefix:
  assumes "pe \<in> set (concat (map (\<lambda>kv. (dotted p, map_key (fst kv))
                                        # events_at (p @ [fst kv]) (snd kv)) kvs))"
    and "p \<noteq> []"
  shows "(fst pe = dotted p \<and> snd pe \<in> range map_key)
         \<or> (\<exists>t. fst pe = dotted p @ CHR ''.'' # t)"
proof -
  from assms(1) obtain kv where
    "pe = (dotted p, map_key (fst kv)) \<or> pe \<in> set (events_at (p @ [fst kv]) (snd kv))"
    by auto
  then show ?thesis
  proof
    assume "pe = (dotted p, map_key (fst kv))"
    then show ?thesis by simp
  next
    assume "pe \<in> set (events_at (p @ [fst kv]) (snd kv))"
    from events_prefix[OF this] assms(2) show ?thesis
      by (auto simp: dotted_snoc)
  qed
qed

lemma below_fed:
  assumes "(fst pe = s \<and> snd pe \<in> range map_key) \<or> (\<exists>t. fst pe = s @ CHR ''.'' # t)"
  shows "s = ''result.item'' \<Longrightarrow> has_result_many l \<Longrightarrow> fed l pe"
    and "s = ''result'' \<Longrightarrow> \<not> has_result_many l \<Longrightarrow> has_result_single l \<Longrightarrow> fed l pe"
    and "s = ''error'' \<Longrightarrow> \<not> has_result_many l \<Longrightarrow> \<not> has_result_single l \<Longrightarrow> has_error l
           \<Longrightarrow> fed l pe"
  using assms by (cases pe; auto simp: fed_def quiet_def startswith_def)+

section \<open>One object of the document\<close>

text \<open>An object with pairwise distinct keys throughout denotes itself.\<close>

lemma update_fresh: "k \<notin> fst ` set acc \<Longrightarrow> AList.update k v acc = acc @ [(k, v)]"
  by (induction acc) auto

lemma fold_update_fresh:
  "distinct (map fst (acc @ kvs)) \<Longrightarrow> (\<forall>kv \<in> set kvs. g (snd kv) = snd kv) \<Longrightarrow>
     fold (\<lambda>kv a. AList.update (fst kv) (g (snd kv)) a) kvs acc = acc @ kvs"
proof (induction kvs arbitrary: acc)
  case Nil
  then show ?case by simp
next
  case (Cons kv kvs)
  from Cons.prems(1) have fresh: "fst kv \<notin> fst ` set acc" by auto
  from Cons.prems(1) have d: "distinct (map fst ((acc @ [kv]) @ kvs))" by simp
  from Cons.prems(2) have g: "g (snd kv) = snd kv" by simp
  have "AList.update (fst kv) (g (snd kv)) acc = acc @ [kv]"
    by (simp add: update_fresh[OF fresh] g)
  with Cons.IH[OF d] Cons.prems(2) show ?case by simp
qed

lemma loads_unique: "unique_keys v \<Longrightarrow> json_loads v = v"
proof (induction v rule: json_loads.induct)
  case (1 kvs)
  then have "\<forall>kv \<in> set kvs. json_loads (snd kv) = snd kv"
    by (auto simp: list_all_iff)
  with 1(2) show ?case
    using fold_update_fresh[of "[]" kvs json_loads] by simp
next
  case (2 xs)
  then show ?case by (auto simp: list_all_iff intro: map_idI)
qed simp_all

lemma built_fields:
  "containers (built v b) = containers b"
  "last (containers b) = initial_set \<Longrightarrow> builder_value (built v b) = Some (json_loads v)"
  by (simp_all add: built_def)

lemma feed_object_split:
  assumes "settable b"
  obtains bm where
    "feed_all (start_map # map snd (concat (map (\<lambda>kv. (dotted p, map_key (fst kv))
                                        # events_at (p @ [fst kv]) (snd kv)) kvs))) b = Inr bm"
    "builder_event end_map bm = Inr (built (JObj kvs) b)"
proof -
  let ?xs = "start_map # map snd (concat (map (\<lambda>kv. (dotted p, map_key (fst kv))
                                        # events_at (p @ [fst kv]) (snd kv)) kvs))"
  have ev: "map snd (events_at p (JObj kvs)) = ?xs @ [end_map]" by simp
  have "feed_all (?xs @ [end_map]) b = Inr (built (JObj kvs) b)"
    using feed_value[OF assms, of p "JObj kvs"] unfolding ev .
  then have e: "(case feed_all ?xs b of Inl e \<Rightarrow> Inl e | Inr b' \<Rightarrow> feed_all [end_map] b')
                  = Inr (built (JObj kvs) b)"
    by (simp only: feed_all_append)
  show thesis
  proof (cases "feed_all ?xs b")
    case (Inl x)
    with e show ?thesis by (simp only: sum.case) simp
  next
    case (Inr bm)
    with e have "feed_all [end_map] bm = Inr (built (JObj kvs) b)" by (simp only: sum.case)
    then have "builder_event end_map bm = Inr (built (JObj kvs) b)"
      by (simp split: sum.splits del: builder_event.simps)
    with Inr show ?thesis by (rule that)
  qed
qed

lemma item_step:
  assumes "has_result_many l" and "builder l = Some b" and "containers b = [initial_set]"
  shows "for_loop (events_at [''result'', ''item''] (JObj kvs) @ rest) l r =
           (Inr (json_loads (JObj kvs)),
            In_loop rest (l\<lparr>builder := Some (built (JObj kvs) b)\<rparr>),
            r\<lparr>count := count r + 1\<rparr>)"
proof -
  let ?p = "[''result'', ''item'']"
  let ?E = "concat (map (\<lambda>kv. (dotted ?p, map_key (fst kv))
                                # events_at (?p @ [fst kv]) (snd kv)) kvs)"
  have sb: "settable b" using assms(3) by (simp add: settable_def)
  from feed_object_split[OF sb, of ?p kvs] obtain bm where
    bm: "feed_all (map snd ((dotted ?p, start_map) # ?E)) b = Inr bm"
    and fin: "builder_event end_map bm = Inr (built (JObj kvs) b)"
    by auto
  have f0: "fed l (dotted ?p, start_map)"
    using assms(1) by (simp add: fed_def quiet_def startswith_def)
  have fE: "fed l pe" if "pe \<in> set ?E" for pe
    using entries_prefix[OF that] assms(1) by (intro below_fed(1)[of pe "dotted ?p"]) simp_all
  have all_fed: "\<forall>pe \<in> set ((dotted ?p, start_map) # ?E). fed l pe"
    using f0 fE by auto
  have r1: "for_loop (((dotted ?p, start_map) # ?E) @ ((dotted ?p, end_map) # rest)) l r =
              for_loop ((dotted ?p, end_map) # rest) (l\<lparr>builder := Some bm\<rparr>) r"
    by (rule route[OF all_fed assms(2) bm])
  have v: "builder_value (built (JObj kvs) b) = Some (json_loads (JObj kvs))"
    using assms(3) by (simp add: built_fields)
  have last: "loop_body (dotted ?p, end_map) (l\<lparr>builder := Some bm\<rparr>) r =
                Yielded (json_loads (JObj kvs)) (l\<lparr>builder := Some (built (JObj kvs) b)\<rparr>)
                  (r\<lparr>count := count r + 1\<rparr>)"
    using assms(1) fin v
    by (simp add: loop_body_def match_root_def dispatch_def feed_and_yield_def)
  have "events_at ?p (JObj kvs) @ rest =
          ((dotted ?p, start_map) # ?E) @ ((dotted ?p, end_map) # rest)"
    by simp
  with r1 last show ?thesis by simp
qed

lemma single_step:
  assumes "\<not> has_result_many l"
  shows "for_loop (events_at [''result''] (JObj kvs) @ rest) l r =
           (Inr (json_loads (JObj kvs)),
            In_loop rest (l\<lparr>builder := Some (built (JObj kvs) ObjectBuilder_init),
                            has_result_single := True\<rparr>),
            r\<lparr>count := count r + 1\<rparr>)"
proof -
  let ?p = "[''result'']"
  let ?E = "concat (map (\<lambda>kv. (dotted ?p, map_key (fst kv))
                                # events_at (?p @ [fst kv]) (snd kv)) kvs)"
  let ?b = ObjectBuilder_init
  have sb: "settable ?b" by (simp add: settable_def ObjectBuilder_init_def)
  from feed_object_split[OF sb, of ?p kvs] obtain bm where
    bm: "feed_all (start_map # map snd ?E) ?b = Inr bm"
    and fin: "builder_event end_map bm = Inr (built (JObj kvs) ?b)"
    by auto
  from bm obtain b1 where b1: "builder_event start_map ?b = Inr b1"
    and bE: "feed_all (map snd ?E) b1 = Inr bm"
    by (auto split: sum.splits)
  let ?l1 = "l\<lparr>builder := Some b1, has_result_single := True\<rparr>"
  have first: "loop_body (dotted ?p, start_map) l r = Continue ?l1 r"
    using assms b1
    by (simp add: loop_body_def match_root_def dispatch_def feed_def startswith_def)
  have fE: "\<forall>pe \<in> set ?E. fed ?l1 pe"
  proof
    fix pe assume "pe \<in> set ?E"
    from entries_prefix[OF this] assms show "fed ?l1 pe"
      by (intro below_fed(2)[of pe "dotted ?p"]) simp_all
  qed
  have r1: "for_loop (?E @ ((dotted ?p, end_map) # rest)) ?l1 r =
              for_loop ((dotted ?p, end_map) # rest) (?l1\<lparr>builder := Some bm\<rparr>) r"
    by (rule route[OF fE _ bE]) simp
  have v: "builder_value (built (JObj kvs) ?b) = Some (json_loads (JObj kvs))"
    by (simp add: built_fields ObjectBuilder_init_def)
  have last: "loop_body (dotted ?p, end_map) (?l1\<lparr>builder := Some bm\<rparr>) r =
                Yielded (json_loads (JObj kvs))
                  (l\<lparr>builder := Some (built (JObj kvs) ?b), has_result_single := True\<rparr>)
                  (r\<lparr>count := count r + 1\<rparr>)"
    using assms fin v
    by (simp add: loop_body_def match_root_def dispatch_def feed_and_yield_def)
  have "events_at ?p (JObj kvs) @ rest =
          (dotted ?p, start_map) # ?E @ ((dotted ?p, end_map) # rest)"
    by simp
  with first r1 last show ?thesis by (simp del: dotted.simps)
qed

lemma error_step:
  assumes "\<not> has_result_many l" and "\<not> has_result_single l"
  shows "for_loop (events_at [''error''] (JObj kvs) @ rest) l r =
           (Inl (ResponseError (json_loads (JObj kvs))), Closed, r)"
proof -
  let ?p = "[''error'']"
  let ?E = "concat (map (\<lambda>kv. (dotted ?p, map_key (fst kv))
                                # events_at (?p @ [fst kv]) (snd kv)) kvs)"
  let ?b = ObjectBuilder_init
  have sb: "settable ?b" by (simp add: settable_def ObjectBuilder_init_def)
  from feed_object_split[OF sb, of ?p kvs] obtain bm where
    bm: "feed_all (start_map # map snd ?E) ?b = Inr bm"
    and fin: "builder_event end_map bm = Inr (built (JObj kvs) ?b)"
    by auto
  from bm obtain b1 where b1: "builder_event start_map ?b = Inr b1"
    and bE: "feed_all (map snd ?E) b1 = Inr bm"
    by (auto split: sum.splits)
  let ?l1 = "l\<lparr>has_error := True, builder := Some b1\<rparr>"
  have first: "loop_body (dotted ?p, start_map) l r = Continue ?l1 r"
    using assms b1
    by (simp add: loop_body_def match_root_def dispatch_def feed_def startswith_def)
  have fE: "\<forall>pe \<in> set ?E. fed ?l1 pe"
  proof
    fix pe assume "pe \<in> set ?E"
    from entries_prefix[OF this] assms show "fed ?l1 pe"
      by (intro below_fed(3)[of pe "dotted ?p"]) simp_all
  qed
  have r1: "for_loop (?E @ ((dotted ?p, end_map) # rest)) ?l1 r =
              for_loop ((dotted ?p, end_map) # rest) (?l1\<lparr>builder := Some bm\<rparr>) r"
    by (rule route[OF fE _ bE]) simp
  from fin have "bm\<lparr>containers := butlast (containers bm)\<rparr> = built (JObj kvs) ?b"
    by (auto split: if_splits)
  then have "builder_value (bm\<lparr>containers := butlast (containers bm)\<rparr>)
               = builder_value (built (JObj kvs) ?b)"
    by (rule arg_cong)
  then have v: "builder_value bm = Some (json_loads (JObj kvs))"
    by (simp add: built_fields ObjectBuilder_init_def)
  have last: "loop_body (dotted ?p, end_map) (?l1\<lparr>builder := Some bm\<rparr>) r =
                Raised (ResponseError (json_loads (JObj kvs))) r"
    using assms v
    by (simp add: loop_body_def match_root_def dispatch_def)
  have "events_at ?p (JObj kvs) @ rest =
          (dotted ?p, start_map) # ?E @ ((dotted ?p, end_map) # rest)"
    by simp
  with first r1 last show ?thesis by (simp del: dotted.simps)
qed

lemma doc_one_key:
  "ijson_parse (JObj [(k, v)]) =
     ([], start_map) # ([], map_key k) # events_at [k] v @ [([], end_map)]"
  by (simp add: ijson_parse_def)

lemma root_level_skipped: "loop_body ([], ev) l r = Continue l r"
  by (simp add: loop_body_def match_root_def dispatch_def startswith_def)

lemma array_opens:
  "loop_body (''result'', start_array) l r =
     Continue (l\<lparr>builder := Some ObjectBuilder_init, has_result_many := True\<rparr>) r"
  by (simp add: loop_body_def match_root_def dispatch_def startswith_def)

lemma array_closes:
  assumes "has_result_many l" and "count r \<noteq> 0"
  shows "for_loop [(''result'', end_array), ([], end_map)] l r = (Inl StopIteration, Closed, r)"
proof -
  have "loop_body (''result'', end_array) l r = Continue l r"
    using assms(1) by (simp add: loop_body_def match_root_def dispatch_def startswith_def)
  then show ?thesis
    using assms by (simp add: root_level_skipped after_loop_def missing_check_def)
qed

lemma chain_item:
  assumes "parse_next f r = for_loop (events_at [''result'', ''item''] (JObj kvs) @ rest) l r"
    and "has_result_many l" and "builder l = Some b" and "containers b = [initial_set]"
  shows "chain_next (Chain Gate_parsed (Some (Generator f))) r =
           (Inr (json_loads (JObj kvs)),
            Chain Gate_parsed (Some (Generator
              (In_loop rest (l\<lparr>builder := Some (built (JObj kvs) b)\<rparr>)))),
            r\<lparr>count := count r + 1\<rparr>)"
  unfolding chain_parsed assms(1) item_step[OF assms(2,3,4)] by simp

lemma pull_items:
  assumes "list_all is_object os"
    and "\<And>r. parse_next f r = for_loop (concat (map (events_at [''result'', ''item'']) os) @ rest) l r"
    and "has_result_many l" and "builder l = Some b" and "containers b = [initial_set]"
  shows "\<exists>f' l'. has_result_many l'
           \<and> (\<forall>r. parse_next f' r = for_loop rest l' r)
           \<and> (\<forall>k. pull (length os + k) (Chain Gate_parsed (Some (Generator f))) r =
                 (case pull k (Chain Gate_parsed (Some (Generator f')))
                         (r\<lparr>count := count r + int (length os)\<rparr>) of
                    (vs, e, c, r') \<Rightarrow> (map json_loads os @ vs, e, c, r')))"
  using assms
proof (induction os arbitrary: f l b r)
  case Nil
  have "r\<lparr>count := count r + int (length ([]::json list))\<rparr> = r" by simp
  with Nil show ?case
    by (intro exI[of _ f] exI[of _ l]) (simp split: prod.splits)
next
  case (Cons x os)
  from Cons.prems(1) obtain kvs where x: "x = JObj kvs" by (cases x) auto
  let ?l1 = "l\<lparr>builder := Some (built (JObj kvs) b)\<rparr>"
  let ?f1 = "In_loop (concat (map (events_at [''result'', ''item'']) os) @ rest) ?l1"
  let ?r1 = "r\<lparr>count := count r + 1\<rparr>"
  have pn: "parse_next f r =
              for_loop (events_at [''result'', ''item''] (JObj kvs)
                        @ (concat (map (events_at [''result'', ''item'']) os) @ rest)) l r"
    using Cons.prems(2)[of r] x by simp
  have step: "chain_next (Chain Gate_parsed (Some (Generator f))) r =
                (Inr (json_loads x), Chain Gate_parsed (Some (Generator ?f1)), ?r1)"
    using chain_item[OF pn Cons.prems(3,4,5)] x by simp
  have "\<exists>f' l'. has_result_many l'
           \<and> (\<forall>r. parse_next f' r = for_loop rest l' r)
           \<and> (\<forall>k. pull (length os + k) (Chain Gate_parsed (Some (Generator ?f1))) ?r1 =
                 (case pull k (Chain Gate_parsed (Some (Generator f')))
                         (?r1\<lparr>count := count ?r1 + int (length os)\<rparr>) of
                    (vs, e, c, r') \<Rightarrow> (map json_loads os @ vs, e, c, r')))"
  proof (rule Cons.IH)
    show "list_all is_object os" using Cons.prems(1) by simp
    show "parse_next ?f1 r' =
            for_loop (concat (map (events_at [''result'', ''item'']) os) @ rest) ?l1 r'" for r'
      by simp
    show "has_result_many ?l1" using Cons.prems(3) by simp
    show "builder ?l1 = Some (built (JObj kvs) b)" by simp
    show "containers (built (JObj kvs) b) = [initial_set]"
      using Cons.prems(5) by (simp add: built_fields)
  qed
  then obtain f' l' where m: "has_result_many l'"
    and pn': "\<forall>r. parse_next f' r = for_loop rest l' r"
    and pl: "\<forall>k. pull (length os + k) (Chain Gate_parsed (Some (Generator ?f1))) ?r1 =
                 (case pull k (Chain Gate_parsed (Some (Generator f')))
                         (?r1\<lparr>count := count ?r1 + int (length os)\<rparr>) of
                    (vs, e, c, r') \<Rightarrow> (map json_loads os @ vs, e, c, r'))"
    by blast
  have cnt: "?r1\<lparr>count := count ?r1 + int (length os)\<rparr>
               = r\<lparr>count := count r + int (length (x # os))\<rparr>"
    by simp
  have "pull (length (x # os) + k) (Chain Gate_parsed (Some (Generator f))) r =
          (case pull k (Chain Gate_parsed (Some (Generator f')))
                  (r\<lparr>count := count r + int (length (x # os))\<rparr>) of
             (vs, e, c, r') \<Rightarrow> (map json_loads (x # os) @ vs, e, c, r'))" for k
    using step pl[rule_format, of k] unfolding cnt
    by (simp split: prod.splits del: chain_next.simps)
  with m pn' show ?case by blast
qed

lemma pull_start:
  "passes_gate (response r) \<Longrightarrow>
     pull (Suc m) (all_records r) r =
     pull (Suc m) (Chain Gate_parsed (Some (Generator (parse_response r)))) r"
  by (simp add: chain_start_passes del: chain_next.simps)

lemma array_document:
  assumes "raw (response r0) = ijson_parse (JObj [(''result'', JArr os)])"
  shows "parse_next (parse_response r0) r =
           for_loop (concat (map (events_at [''result'', ''item'']) os)
                     @ [(''result'', end_array), ([], end_map)])
             (locals_init\<lparr>builder := Some ObjectBuilder_init, has_result_many := True\<rparr>) r"
  by (simp add: parse_response_def assms doc_one_key root_level_skipped array_opens)

lemma object_document:
  assumes "raw (response r0) = ijson_parse (JObj [(''result'', JObj kvs)])"
  shows "parse_next (parse_response r0) r =
           for_loop (events_at [''result''] (JObj kvs) @ [([], end_map)]) locals_init r"
  by (simp add: parse_response_def assms doc_one_key root_level_skipped del: events_at.simps)

section \<open>An array of records\<close>

text \<open>
  C2. For every document \<open>{"result": [o1, ..., on]}\<close> with \<open>n \<ge> 1\<close> whose \<open>oi\<close> are
  objects (with distinct keys, as Python dicts have), on a response whose body is parsed:
  iterating \<open>all()\<close> yields exactly \<open>o1, ..., on\<close>, in this order and equal to the
  originals, is then exhausted, and leaves \<open>count = n\<close>.
\<close>

theorem all_yields_the_records:
  assumes "passes_gate resp" and "raw resp = ijson_parse (JObj [(''result'', JArr os)])"
    and "os \<noteq> []" and "list_all is_object os" and "list_all unique_keys os"
  shows "pull (Suc (length os + k)) (all_records (Response_init resp roe chunk))
              (Response_init resp roe chunk)
         = (os, Some StopIteration, Chain Gate_closed None,
            (Response_init resp roe chunk)\<lparr>count := int (length os)\<rparr>)"
proof -
  let ?R = "Response_init resp roe chunk"
  let ?l0 = "locals_init\<lparr>builder := Some ObjectBuilder_init, has_result_many := True\<rparr>"
  let ?tail = "[(''result'', end_array), ([], end_map)]"
  have g: "passes_gate (response ?R)" and raw: "raw (response ?R) = ijson_parse (JObj [(''result'', JArr os)])"
    and c0: "count ?R = 0"
    using assms(1,2) by (simp_all add: Response_init_def)
  obtain f' l' where m: "has_result_many l'"
    and pn: "\<forall>r. parse_next f' r = for_loop ?tail l' r"
    and pl: "\<forall>k. pull (length os + k) (Chain Gate_parsed (Some (Generator (parse_response ?R)))) ?R =
                 (case pull k (Chain Gate_parsed (Some (Generator f')))
                         (?R\<lparr>count := count ?R + int (length os)\<rparr>) of
                    (vs, e, c, r') \<Rightarrow> (map json_loads os @ vs, e, c, r'))"
    using pull_items[OF assms(4), of "parse_response ?R" ?tail ?l0 ObjectBuilder_init ?R]
          array_document[OF raw]
    by (auto simp: ObjectBuilder_init_def)
  let ?R1 = "?R\<lparr>count := int (length os)\<rparr>"
  have r1: "?R\<lparr>count := count ?R + int (length os)\<rparr> = ?R1" by (simp add: c0)
  have "count ?R1 \<noteq> 0" using assms(3) by simp
  from array_closes[OF m this] pn
  have "parse_next f' ?R1 = (Inl StopIteration, Closed, ?R1)" by simp
  then have fin: "pull (Suc k) (Chain Gate_parsed (Some (Generator f'))) ?R1 =
                    ([], Some StopIteration, Chain Gate_closed None, ?R1)"
    by (simp add: chain_parsed del: chain_next.simps)
  have loads: "map json_loads os = os"
    using assms(5) by (auto simp: list_all_iff loads_unique intro: map_idI)
  have "pull (Suc (length os + k)) (all_records ?R) ?R =
          pull (length os + Suc k) (Chain Gate_parsed (Some (Generator (parse_response ?R)))) ?R"
    using pull_start[OF g, of "length os + k"] by simp
  also have "\<dots> = (os, Some StopIteration, Chain Gate_closed None, ?R1)"
    using pl[rule_format, of "Suc k"] unfolding r1 fin by (simp add: loads)
  finally show ?thesis .
qed

theorem all_yields_the_records_witness:
  "passes_gate \<lparr>status_code = 200, request_method = ''GET'',
       raw = ijson_parse (JObj [(''result'', JArr [JObj [(''a'', JNum (Integer 1))],
                                                   JObj [(''b'', JArr [JStr ''x''])]])])\<rparr>
   \<and> list_all is_object [JObj [(''a'', JNum (Integer 1))], JObj [(''b'', JArr [JStr ''x''])]]
   \<and> list_all unique_keys [JObj [(''a'', JNum (Integer 1))], JObj [(''b'', JArr [JStr ''x''])]]
   \<and> pull (Suc (Suc (Suc 0)))
        (all_records (Response_init \<lparr>status_code = 200, request_method = ''GET'',
           raw = ijson_parse (JObj [(''result'', JArr [JObj [(''a'', JNum (Integer 1))],
                                                   JObj [(''b'', JArr [JStr ''x''])]])])\<rparr> False 1024))
        (Response_init \<lparr>status_code = 200, request_method = ''GET'',
           raw = ijson_parse (JObj [(''result'', JArr [JObj [(''a'', JNum (Integer 1))],
                                                   JObj [(''b'', JArr [JStr ''x''])]])])\<rparr> False 1024)
       = ([JObj [(''a'', JNum (Integer 1))], JObj [(''b'', JArr [JStr ''x''])]],
          Some StopIteration, Chain Gate_closed None,
          (Response_init \<lparr>status_code = 200, request_method = ''GET'',
           raw = ijson_parse (JObj [(''result'', JArr [JObj [(''a'', JNum (Integer 1))],
                                                   JObj [(''b'', JArr [JStr ''x''])]])])\<rparr> False 1024)
            \<lparr>count := 2\<rparr>)"
proof -
  let ?os = "[JObj [(''a'', JNum (Integer 1))], JObj [(''b'', JArr [JStr ''x''])]]"
  let ?resp = "\<lparr>status_code = 200, request_method = ''GET'',
       raw = ijson_parse (JObj [(''result'', JArr ?os)])\<rparr>"
  have h1: "passes_gate ?resp" by (simp add: passes_gate_def raise_for_status_def)
  have h2: "raw ?resp = ijson_parse (JObj [(''result'', JArr ?os)])" by simp
  have h3: "?os \<noteq> []" by simp
  have h4: "list_all is_object ?os" by simp
  have h5: "list_all unique_keys ?os" by simp
  from h1 h4 h5 all_yields_the_records[OF h1 h2 h3 h4 h5, of 0 False 1024]
  show ?thesis by simp
qed

section \<open>A single record\<close>

text \<open>
  C7. For every document \<open>{"result": {...}}\<close> whose result is an object (with distinct
  keys, as Python dicts have), on a response whose body is parsed: iterating \<open>all()\<close>
  yields exactly one record, equal to that object, is then exhausted, and leaves
  \<open>count = 1\<close>.
\<close>

theorem single_result:
  assumes "passes_gate resp" and "raw resp = ijson_parse (JObj [(''result'', JObj kvs)])"
    and "unique_keys (JObj kvs)"
  shows "pull (Suc (Suc k)) (all_records (Response_init resp roe chunk))
              (Response_init resp roe chunk)
         = ([JObj kvs], Some StopIteration, Chain Gate_closed None,
            (Response_init resp roe chunk)\<lparr>count := 1\<rparr>)"
proof -
  let ?R = "Response_init resp roe chunk"
  let ?R1 = "?R\<lparr>count := 1\<rparr>"
  let ?l1 = "locals_init\<lparr>builder := Some (built (JObj kvs) ObjectBuilder_init),
                          has_result_single := True\<rparr>"
  have g: "passes_gate (response ?R)"
    and raw: "raw (response ?R) = ijson_parse (JObj [(''result'', JObj kvs)])"
    and c0: "count ?R = 0"
    using assms(1,2) by (simp_all add: Response_init_def)
  have nm: "\<not> has_result_many locals_init" by (simp add: locals_init_def)
  have first: "parse_next (parse_response ?R) ?R =
                 (Inr (JObj kvs), In_loop [([], end_map)] ?l1, ?R1)"
    unfolding object_document[OF raw] single_step[OF nm]
    using loads_unique[OF assms(3)] by (simp add: c0)
  have second: "parse_next (In_loop [([], end_map)] ?l1) ?R1 = (Inl StopIteration, Closed, ?R1)"
    by (simp add: root_level_skipped after_loop_def missing_check_def)
  have "pull (Suc (Suc k)) (all_records ?R) ?R =
          pull (Suc (Suc k)) (Chain Gate_parsed (Some (Generator (parse_response ?R)))) ?R"
    by (rule pull_start[OF g])
  also have "\<dots> = ([JObj kvs], Some StopIteration, Chain Gate_closed None, ?R1)"
    using first second by (simp add: chain_parsed del: chain_next.simps parse_next.simps)
  finally show ?thesis .
qed

theorem single_result_witness:
  "passes_gate \<lparr>status_code = 200, request_method = ''GET'',
       raw = ijson_parse (JObj [(''result'', JObj [(''a'', JObj [(''b'', JNull)])])])\<rparr>
   \<and> unique_keys (JObj [(''a'', JObj [(''b'', JNull)])])
   \<and> pull (Suc (Suc 0))
        (all_records (Response_init \<lparr>status_code = 200, request_method = ''GET'',
           raw = ijson_parse (JObj [(''result'', JObj [(''a'', JObj [(''b'', JNull)])])])\<rparr> True 1024))
        (Response_init \<lparr>status_code = 200, request_method = ''GET'',
           raw = ijson_parse (JObj [(''result'', JObj [(''a'', JObj [(''b'', JNull)])])])\<rparr> True 1024)
       = ([JObj [(''a'', JObj [(''b'', JNull)])]], Some StopIteration, Chain Gate_closed None,
          (Response_init \<lparr>status_code = 200, request_method = ''GET'',
           raw = ijson_parse (JObj [(''result'', JObj [(''a'', JObj [(''b'', JNull)])])])\<rparr> True 1024)
            \<lparr>count := 1\<rparr>)"
proof -
  let ?kvs = "[(''a'', JObj [(''b'', JNull)])]"
  let ?resp = "\<lparr>status_code = 200, request_method = ''GET'',
       raw = ijson_parse (JObj [(''result'', JObj ?kvs)])\<rparr>"
  have h1: "passes_gate ?resp" by (simp add: passes_gate_def raise_for_status_def)
  have h2: "raw ?resp = ijson_parse (JObj [(''result'', JObj ?kvs)])" by simp
  have h3: "unique_keys (JObj ?kvs)" by simp
  from h1 h3 single_result[OF h1 h2 h3, of 0 True 1024]
  show ?thesis by simp
qed

section \<open>Exactly one record\<close>

text \<open>
  C6. On a response whose body is parsed: \<open>one()\<close> on \<open>{"result": [o1, o2, ...]}\<close>, two
  objects or more, fails with \<open>MultipleResults\<close>; \<open>one()\<close> on \<open>{"result": [o1]}\<close>
  returns \<open>o1\<close>.
\<close>

theorem one_cardinality:
  assumes "passes_gate resp"
  shows "(raw resp = ijson_parse (JObj [(''result'', JArr (o1 # o2 # os))])
            \<and> list_all is_object (o1 # o2 # os)
          \<longrightarrow> fst (one (Response_init resp roe chunk)) = Inl MultipleResults)
       \<and> (raw resp = ijson_parse (JObj [(''result'', JArr [o1])])
            \<and> is_object o1 \<and> unique_keys o1
          \<longrightarrow> fst (one (Response_init resp roe chunk)) = Inr o1)"
proof (intro conjI impI)
  let ?R = "(Response_init resp roe chunk)\<lparr>raise_on_empty := True\<rparr>"
  let ?l0 = "locals_init\<lparr>builder := Some ObjectBuilder_init, has_result_many := True\<rparr>"
  let ?tail = "[(''result'', end_array), ([], end_map)]"
  have g: "passes_gate (response ?R)" using assms by (simp add: Response_init_def)
  have start: "chain_next (all_records ?R) ?R =
                 chain_next (Chain Gate_parsed (Some (Generator (parse_response ?R)))) ?R"
    by (rule chain_start_passes[OF g])
  {
    assume a: "raw resp = ijson_parse (JObj [(''result'', JArr (o1 # o2 # os))])
                 \<and> list_all is_object (o1 # o2 # os)"
    then obtain kvs1 kvs2 where obj: "o1 = JObj kvs1" "o2 = JObj kvs2"
      by (cases o1; cases o2) auto
    let ?rest = "concat (map (events_at [''result'', ''item'']) os) @ ?tail"
    have raw: "raw (response ?R) = ijson_parse (JObj [(''result'', JArr (o1 # o2 # os))])"
      using a by (simp add: Response_init_def)
    have pn: "parse_next (parse_response ?R) ?R =
                for_loop (events_at [''result'', ''item''] (JObj kvs1)
                          @ (events_at [''result'', ''item''] (JObj kvs2) @ ?rest)) ?l0 ?R"
      unfolding array_document[OF raw] obj by simp
    let ?b1 = "built (JObj kvs1) ObjectBuilder_init"
    let ?l1 = "?l0\<lparr>builder := Some ?b1\<rparr>"
    let ?R1 = "?R\<lparr>count := count ?R + 1\<rparr>"
    have s1: "chain_next (Chain Gate_parsed (Some (Generator (parse_response ?R)))) ?R =
                (Inr (json_loads (JObj kvs1)),
                 Chain Gate_parsed (Some (Generator
                   (In_loop (events_at [''result'', ''item''] (JObj kvs2) @ ?rest) ?l1))), ?R1)"
      by (rule chain_item[OF pn]) (simp_all add: ObjectBuilder_init_def)
    have s2: "chain_next (Chain Gate_parsed (Some (Generator
                   (In_loop (events_at [''result'', ''item''] (JObj kvs2) @ ?rest) ?l1)))) ?R1 =
                (Inr (json_loads (JObj kvs2)),
                 Chain Gate_parsed (Some (Generator
                   (In_loop ?rest (?l1\<lparr>builder := Some (built (JObj kvs2) ?b1)\<rparr>)))),
                 ?R1\<lparr>count := count ?R1 + 1\<rparr>)"
      by (rule chain_item) (simp_all add: built_fields ObjectBuilder_init_def)
    show "fst (one (Response_init resp roe chunk)) = Inl MultipleResults"
      by (simp only: one_def Let_def start s1 s2 prod.case sum.case fst_conv)
  }
  {
    assume a: "raw resp = ijson_parse (JObj [(''result'', JArr [o1])])
                 \<and> is_object o1 \<and> unique_keys o1"
    then obtain kvs1 where obj: "o1 = JObj kvs1" by (cases o1) auto
    have raw: "raw (response ?R) = ijson_parse (JObj [(''result'', JArr [o1])])"
      using a by (simp add: Response_init_def)
    have pn: "parse_next (parse_response ?R) ?R =
                for_loop (events_at [''result'', ''item''] (JObj kvs1) @ ?tail) ?l0 ?R"
      unfolding array_document[OF raw] obj by simp
    let ?b1 = "built (JObj kvs1) ObjectBuilder_init"
    let ?l1 = "?l0\<lparr>builder := Some ?b1\<rparr>"
    let ?R1 = "?R\<lparr>count := count ?R + 1\<rparr>"
    have s1: "chain_next (Chain Gate_parsed (Some (Generator (parse_response ?R)))) ?R =
                (Inr (json_loads (JObj kvs1)),
                 Chain Gate_parsed (Some (Generator (In_loop ?tail ?l1))), ?R1)"
      by (rule chain_item[OF pn]) (simp_all add: ObjectBuilder_init_def)
    have "count ?R1 \<noteq> 0" by (simp add: Response_init_def)
    from array_closes[OF _ this, of ?l1]
    have "parse_next (In_loop ?tail ?l1) ?R1 = (Inl StopIteration, Closed, ?R1)" by simp
    then have s2: "chain_next (Chain Gate_parsed (Some (Generator (In_loop ?tail ?l1)))) ?R1 =
                     (Inl StopIteration, Chain Gate_closed None, ?R1)"
      by (simp add: chain_parsed del: chain_next.simps parse_next.simps)
    have "json_loads (JObj kvs1) = o1" using a obj loads_unique[of o1] by simp
    then show "fst (one (Response_init resp roe chunk)) = Inr o1"
      by (simp only: one_def Let_def start s1 s2 prod.case sum.case fst_conv refl if_True)
  }
qed

theorem one_cardinality_witness:
  "passes_gate \<lparr>status_code = 200, request_method = ''GET'',
       raw = ijson_parse (JObj [(''result'', JArr [JObj [(''a'', JNull)], JObj [(''b'', JNull)]])])\<rparr>
   \<and> list_all is_object [JObj [(''a'', JNull)], JObj [(''b'', JNull)]]
   \<and> fst (one (Response_init \<lparr>status_code = 200, request_method = ''GET'',
       raw = ijson_parse (JObj [(''result'', JArr [JObj [(''a'', JNull)], JObj [(''b'', JNull)]])])\<rparr>
         False 1024)) = Inl MultipleResults
   \<and> passes_gate \<lparr>status_code = 200, request_method = ''GET'',
       raw = ijson_parse (JObj [(''result'', JArr [JObj [(''a'', JNull)]])])\<rparr>
   \<and> is_object (JObj [(''a'', JNull)]) \<and> unique_keys (JObj [(''a'', JNull)])
   \<and> fst (one (Response_init \<lparr>status_code = 200, request_method = ''GET'',
       raw = ijson_parse (JObj [(''result'', JArr [JObj [(''a'', JNull)]])])\<rparr>
         False 1024)) = Inr (JObj [(''a'', JNull)])"
proof -
  let ?r2 = "\<lparr>status_code = 200, request_method = ''GET'',
       raw = ijson_parse (JObj [(''result'', JArr [JObj [(''a'', JNull)], JObj [(''b'', JNull)]])])\<rparr>"
  let ?r1 = "\<lparr>status_code = 200, request_method = ''GET'',
       raw = ijson_parse (JObj [(''result'', JArr [JObj [(''a'', JNull)]])])\<rparr>"
  have h2: "passes_gate ?r2" and h1: "passes_gate ?r1"
    by (simp_all add: passes_gate_def raise_for_status_def)
  from h1 h2
       one_cardinality[OF h2, of "JObj [(''a'', JNull)]" "JObj [(''b'', JNull)]" "[]" False 1024]
       one_cardinality[OF h1, of "JObj [(''a'', JNull)]" "JObj [(''b'', JNull)]" "[]" False 1024]
  show ?thesis by simp
qed

section \<open>An error object before any result\<close>

text \<open>
  What does hold of C1: when the \<open>error\<close> object is the first key of the root, iterating
  fails with \<open>ResponseError\<close> carrying the error object, whatever raise-on-empty is and
  whatever follows in the document.
\<close>

lemma error_first:
  assumes "passes_gate (response r)"
    and "raw (response r) = ijson_parse (JObj ((''error'', JObj kvs) # others))"
  shows "pull (Suc n) (all_records r) r =
           ([], Some (ResponseError (json_loads (JObj kvs))),
            Chain Gate_parsed (Some (Generator Closed)), r)"
proof -
  have nm: "\<not> has_result_many locals_init" "\<not> has_result_single locals_init"
    by (simp_all add: locals_init_def)
  have ev: "ijson_parse (JObj ((''error'', JObj kvs) # others)) =
              ([], start_map) # ([], map_key ''error'')
                # events_at [''error''] (JObj kvs)
                @ (concat (map (\<lambda>kv. ([], map_key (fst kv)) # events_at [fst kv] (snd kv)) others)
                   @ [([], end_map)])"
    by (simp add: ijson_parse_def)
  have "parse_next (parse_response r) r =
          (Inl (ResponseError (json_loads (JObj kvs))), Closed, r)"
    unfolding parse_response_def assms(2) ev
    by (simp add: root_level_skipped error_step[OF nm] del: events_at.simps)
  then show ?thesis
    unfolding pull_start[OF assms(1)]
    by (simp add: chain_parsed del: chain_next.simps parse_next.simps)
qed

end
